theory Spec2Isabelle
  imports Main
begin

section \<open>Concurrency toolkit of common/concurrency.go\<close>

text \<open>
  The Go file offers a guarded map, a worker pool, a bounded parallel task runner, a
  counting semaphore, a token rate limiter and a chunked batch driver. The model keeps
  the names of the source. A Go value of type \<open>interface{}\<close> or \<open>error\<close> may be
  \<open>nil\<close>: it is an \<open>option\<close>, with \<open>None\<close> for \<open>nil\<close>.
\<close>

subsection \<open>SafeMap\<close>

text \<open>
  \<open>SafeMap\<close> holds a Go \<open>map[string]interface{}\<close> behind a read-write mutex. Every
  method takes the lock for its whole body, so each method is one atomic function of the
  map. A key is absent (\<open>None\<close>), or present with a value that may itself be \<open>nil\<close>
  (\<open>Some None\<close>).
\<close>

record 'v SafeMap =
  data :: "string \<Rightarrow> 'v option option"

definition NewSafeMap :: "'v SafeMap" where
  "NewSafeMap = \<lparr>data = Map.empty\<rparr>"

definition SafeMap_Set :: "'v SafeMap \<Rightarrow> string \<Rightarrow> 'v option \<Rightarrow> 'v SafeMap" where
  "SafeMap_Set m key val = m\<lparr>data := (data m)(key \<mapsto> val)\<rparr>"

text \<open>Indexing a Go map at a missing key gives the zero value of the element type, \<open>nil\<close>.\<close>

definition SafeMap_Get :: "'v SafeMap \<Rightarrow> string \<Rightarrow> 'v option" where
  "SafeMap_Get m key = (case data m key of None \<Rightarrow> None | Some val \<Rightarrow> val)"

definition SafeMap_GetWithDefault :: "'v SafeMap \<Rightarrow> string \<Rightarrow> 'v option \<Rightarrow> 'v option" where
  "SafeMap_GetWithDefault m key defaultValue =
     (case data m key of Some val \<Rightarrow> val | None \<Rightarrow> defaultValue)"

definition SafeMap_Has :: "'v SafeMap \<Rightarrow> string \<Rightarrow> bool" where
  "SafeMap_Has m key = (case data m key of Some _ \<Rightarrow> True | None \<Rightarrow> False)"

definition SafeMap_Delete :: "'v SafeMap \<Rightarrow> string \<Rightarrow> 'v SafeMap" where
  "SafeMap_Delete m key = m\<lparr>data := (data m)(key := None)\<rparr>"

definition SafeMap_Clear :: "'v SafeMap \<Rightarrow> 'v SafeMap" where
  "SafeMap_Clear m = m\<lparr>data := Map.empty\<rparr>"

subsection \<open>Runtime panics\<close>

text \<open>
  The run-time panics the Go runtime and the standard library raise in this file. A panic
  that no deferred function recovers ends the whole process.
\<close>

datatype panic =
    MakechanSizeOutOfRange
  | MakesliceCapOutOfRange
  | SliceBoundsOutOfRange
  | IntegerDivideByZero
  | NonPositiveTickerInterval
  | SendOnClosedChannel

subsection \<open>Channels of \<open>struct{}\<close>\<close>

text \<open>
  A channel made by \<open>make(chan struct{}, size)\<close> carries no data, so its buffer is a
  count. \<open>chansend\<close> and \<open>chanrecv\<close> follow the runtime functions of the same names,
  with their \<open>block\<close> argument: a send goes to a parked receiver if there is one, else
  into the buffer if there is room, else it fails (\<open>select\<close> with \<open>default\<close>) or parks
  the caller; a receive takes from a parked sender (whose element then fills the freed
  buffer slot), else from the buffer, else fails or parks. The Boolean says whether the
  operation has completed; a parked goroutine is counted in \<open>sendq\<close> or \<open>recvq\<close> and
  completes when the matching operation of another goroutine reaches it.
\<close>

record chan =
  cap :: int
  len :: int
  sendq :: nat
  recvq :: nat

definition makechan :: "int \<Rightarrow> panic + chan" where
  "makechan n =
     (if n < 0 then Inl MakechanSizeOutOfRange
      else Inr \<lparr>cap = n, len = 0, sendq = 0, recvq = 0\<rparr>)"

definition chansend :: "bool \<Rightarrow> chan \<Rightarrow> bool \<times> chan" where
  "chansend block c =
     (if 0 < recvq c then (True, c\<lparr>recvq := recvq c - 1\<rparr>)
      else if len c < cap c then (True, c\<lparr>len := len c + 1\<rparr>)
      else if \<not> block then (False, c)
      else (False, c\<lparr>sendq := sendq c + 1\<rparr>))"

definition chanrecv :: "bool \<Rightarrow> chan \<Rightarrow> bool \<times> chan" where
  "chanrecv block c =
     (if 0 < sendq c then (True, c\<lparr>sendq := sendq c - 1\<rparr>)
      else if 0 < len c then (True, c\<lparr>len := len c - 1\<rparr>)
      else if \<not> block then (False, c)
      else (False, c\<lparr>recvq := recvq c + 1\<rparr>))"

text \<open>
  What holds of a channel at all times: the buffer is within its capacity, a receiver is
  parked only at an empty buffer, and a sender only at a full one.
\<close>

definition chan_inv :: "chan \<Rightarrow> bool" where
  "chan_inv c = (0 \<le> len c \<and> len c \<le> cap c
     \<and> (0 < recvq c \<longrightarrow> len c = 0 \<and> sendq c = 0)
     \<and> (0 < sendq c \<longrightarrow> len c = cap c))"

subsection \<open>Semaphore\<close>

text \<open>
  A semaphore is a buffered channel: a slot is held by an element in the buffer. A call
  that blocks has not returned: its result is \<open>Blocked\<close>, and the caller stays parked
  on the channel.
\<close>

record Semaphore =
  sem :: chan

datatype 'a call = Returned 'a | Blocked

definition NewSemaphore :: "int \<Rightarrow> panic + Semaphore" where
  "NewSemaphore n =
     (case makechan n of Inl p \<Rightarrow> Inl p | Inr c \<Rightarrow> Inr \<lparr>sem = c\<rparr>)"

definition Acquire :: "Semaphore \<Rightarrow> unit call \<times> Semaphore" where
  "Acquire s =
     (let (sent, c) = chansend True (sem s)
      in (if sent then Returned () else Blocked, s\<lparr>sem := c\<rparr>))"

text \<open>
  \<open>AcquireWithTimeout\<close> selects between the send and the timer's channel. Which of the
  two happens first is decided by the clock and the scheduler: \<open>timer_first\<close> says that
  the timer's case is taken, either at once (both cases ready) or after the caller was
  parked without being handed a slot.
\<close>

definition AcquireWithTimeout :: "bool \<Rightarrow> Semaphore \<Rightarrow> bool call \<times> Semaphore" where
  "AcquireWithTimeout timer_first s =
     (if timer_first then (Returned False, s)
      else let (sent, c) = chansend True (sem s)
           in (if sent then Returned True else Blocked, s\<lparr>sem := c\<rparr>))"

definition Release :: "Semaphore \<Rightarrow> unit call \<times> Semaphore" where
  "Release s =
     (let (received, c) = chanrecv True (sem s)
      in (if received then Returned () else Blocked, s\<lparr>sem := c\<rparr>))"

definition TryAcquire :: "Semaphore \<Rightarrow> bool \<times> Semaphore" where
  "TryAcquire s =
     (let (sent, c) = chansend False (sem s)
      in if sent then (True, s\<lparr>sem := c\<rparr>) else (False, s))"

definition Available :: "Semaphore \<Rightarrow> int" where
  "Available s = cap (sem s) - len (sem s)"

text \<open>The slots that are held: the elements in the channel's buffer.\<close>

definition outstanding :: "Semaphore \<Rightarrow> int" where
  "outstanding s = len (sem s)"

text \<open>
  The calls that goroutines make on one semaphore, in the order in which they reach the
  channel.
\<close>

datatype sem_op = OpAcquire | OpAcquireWithTimeout bool | OpTryAcquire | OpRelease

fun sem_step :: "Semaphore \<Rightarrow> sem_op \<Rightarrow> Semaphore" where
  "sem_step s OpAcquire = snd (Acquire s)"
| "sem_step s (OpAcquireWithTimeout timer_first) = snd (AcquireWithTimeout timer_first s)"
| "sem_step s OpTryAcquire = snd (TryAcquire s)"
| "sem_step s OpRelease = snd (Release s)"

definition sem_run :: "Semaphore \<Rightarrow> sem_op list \<Rightarrow> Semaphore" where
  "sem_run s ops = foldl sem_step s ops"

text \<open>
  A sequence of calls in which every \<open>Release\<close> gives back a slot that an earlier,
  successful acquire took and that has not been released since.
\<close>

fun matched :: "Semaphore \<Rightarrow> sem_op list \<Rightarrow> bool" where
  "matched s [] = True"
| "matched s (x # xs) = ((x = OpRelease \<longrightarrow> 0 < outstanding s) \<and> matched (sem_step s x) xs)"

subsection \<open>RateLimiter\<close>

text \<open>
  Go's integer division truncates towards zero, and dividing by zero panics.
  \<open>time.Duration\<close> counts nanoseconds in an \<open>int64\<close>; \<open>time.Second\<close> is \<open>10^9\<close>.
\<close>

definition quo :: "int \<Rightarrow> int \<Rightarrow> int" where
  "quo a b = sgn a * sgn b * (\<bar>a\<bar> div \<bar>b\<bar>)"

definition Second :: int where
  "Second = 1000000000"

text \<open>
  The token generator is a goroutine of its own: spawned by the constructor, it creates
  its ticker (\<open>time.NewTicker\<close> panics on an interval that is not positive), then goes round
  until it sees the cancelled context.
\<close>

datatype generator_state = Spawned | Ticking | Stopped | Panicked panic

record RateLimiter =
  interval :: int
  tokens :: chan
  ctx_done :: bool
  generator :: generator_state

definition NewRateLimiter :: "int \<Rightarrow> panic + RateLimiter" where
  "NewRateLimiter maxRequestsPerSecond =
     (if maxRequestsPerSecond = 0 then Inl IntegerDivideByZero
      else case makechan 1 of
             Inl p \<Rightarrow> Inl p
           | Inr c \<Rightarrow> Inr \<lparr>interval = quo Second maxRequestsPerSecond, tokens = c,
                           ctx_done = False, generator = Spawned\<rparr>)"

text \<open>The three kinds of step of \<open>generateTokens\<close>: creating the ticker, one tick, leaving.\<close>

definition generateTokens_start :: "RateLimiter \<Rightarrow> RateLimiter" where
  "generateTokens_start r =
     (if generator r \<noteq> Spawned then r
      else if interval r \<le> 0 then r\<lparr>generator := Panicked NonPositiveTickerInterval\<rparr>
      else r\<lparr>generator := Ticking\<rparr>)"

definition generateTokens_tick :: "RateLimiter \<Rightarrow> RateLimiter" where
  "generateTokens_tick r =
     (if generator r \<noteq> Ticking then r
      else let (sent, c) = chansend False (tokens r) in r\<lparr>tokens := c\<rparr>)"

definition generateTokens_done :: "RateLimiter \<Rightarrow> RateLimiter" where
  "generateTokens_done r =
     (if generator r = Ticking \<and> ctx_done r then r\<lparr>generator := Stopped\<rparr> else r)"

definition Wait :: "RateLimiter \<Rightarrow> unit call \<times> RateLimiter" where
  "Wait r =
     (let (received, c) = chanrecv True (tokens r)
      in (if received then Returned () else Blocked, r\<lparr>tokens := c\<rparr>))"

definition TryWait :: "RateLimiter \<Rightarrow> bool \<times> RateLimiter" where
  "TryWait r =
     (let (received, c) = chanrecv False (tokens r)
      in if received then (True, r\<lparr>tokens := c\<rparr>) else (False, r))"

definition Close :: "RateLimiter \<Rightarrow> RateLimiter" where
  "Close r = r\<lparr>ctx_done := True\<rparr>"

text \<open>What happens to one limiter, in order: the generator's steps and the callers' calls.\<close>

datatype limiter_event =
  GeneratorStart | Tick | GeneratorDone | CallWait | CallTryWait | CallClose

fun limiter_step :: "RateLimiter \<Rightarrow> limiter_event \<Rightarrow> RateLimiter" where
  "limiter_step r GeneratorStart = generateTokens_start r"
| "limiter_step r Tick = generateTokens_tick r"
| "limiter_step r GeneratorDone = generateTokens_done r"
| "limiter_step r CallWait = snd (Wait r)"
| "limiter_step r CallTryWait = snd (TryWait r)"
| "limiter_step r CallClose = Close r"

definition limiter_run :: "RateLimiter \<Rightarrow> limiter_event list \<Rightarrow> RateLimiter" where
  "limiter_run r evs = foldl limiter_step r evs"

text \<open>The tokens in the buffer.\<close>

definition buffered :: "RateLimiter \<Rightarrow> int" where
  "buffered r = len (tokens r)"

subsection \<open>Tasks and results\<close>

text \<open>
  A Go \<open>error\<close> in this file is an error value that the caller's code made, the error
  that the runner makes from a recovered panic value with \<open>fmt.Errorf\<close>, the \<open>Err()\<close>
  of a context that is done, or the pool's \<open>errors.New("...")\<close> value.
\<close>

datatype ctx_error = DeadlineExceeded | Canceled

datatype ('e, 'p) error =
    TaskError 'e
  | PanicError 'p
  | ContextError ctx_error
  | PoolStopped

text \<open>
  A \<open>Task\<close> is a closure of the caller, \<open>func() (interface{}, error)\<close>. The model
  keeps what a call of it does to the goroutine that calls it; what a task does to the
  caller's own data, and calls that never end, are outside the model.

  A worker of the pool calls the task bare. The model of the pool keeps two ends of the
  call: it returns a value and an error, each of which may be \<open>nil\<close>, or it panics.
\<close>

datatype ('v, 'e, 'p) Task =
    TaskReturns "'v option" "('e, 'p) error option"
  | TaskPanics 'p

text \<open>
  A goroutine of the parallel runner calls the task under a deferred function that asks
  \<open>recover()\<close>. There the call has three ends. It returns a value and an error. It
  panics, and \<open>recover()\<close> reports the value of the panic: \<open>None\<close> stands for a
  reported \<open>nil\<close>, which is what \<open>panic(nil)\<close> gives under the rules before Go 1.21
  (a main module with a \<open>go\<close> line below 1.21, or \<open>GODEBUG=panicnil=1\<close>; the
  repository has no \<open>go.mod\<close>, and its generics need Go 1.18 only). Or it ends its
  goroutine with \<open>runtime.Goexit\<close>, which runs the deferred functions with \<open>recover()\<close>
  reporting \<open>nil\<close>.
\<close>

datatype ('v, 'e, 'p) task_call =
    CallReturns "'v option" "('e, 'p) error option"
  | CallPanics "'p option"
  | CallGoexits

record ('v, 'e, 'p) TaskResult =
  Value :: "'v option"
  Error :: "('e, 'p) error option"
  Index :: int

text \<open>What ends a process: a run-time panic of the code itself, or a task's panic that nothing recovers.\<close>

datatype 'p crash = RuntimeError panic | Unrecovered 'p

subsection \<open>Parallelizer\<close>

record Parallelizer =
  MaxGoroutines :: int
  Timeout :: int

definition NewParallelizer :: "int \<Rightarrow> int \<Rightarrow> Parallelizer" where
  "NewParallelizer maxGoroutines timeout = \<lparr>MaxGoroutines = maxGoroutines, Timeout = timeout\<rparr>"

text \<open>
  The context that the caller passes: \<open>context.Background()\<close>, which is never done, or
  any other context, which may be done at any moment (already at the call, too) with
  either error.
\<close>

datatype parent_context = Background | Cancellable

text \<open>
  \<open>RunWithContext\<close> runs in the calling goroutine and starts one goroutine for each
  task. The state of a run holds what they share: the \<open>results\<close> slice, the admission
  channel \<open>sem\<close>, the wait group's counter and the derived context; and where each
  goroutine stands. The calling goroutine is at the head of the loop, parked in the send
  on \<open>sem\<close>, at the \<open>go\<close> statement, in \<open>wg.Wait()\<close>, or has returned. The goroutine
  of a task has not been started, is at the check of the context, is in the call of the
  task, or has left: through the \<open>return\<close> of the cancelled branch, or after the
  call of the task and the deferred functions. (\<open>ParkedOnReceive\<close> is a goroutine whose deferred receive from \<open>sem\<close> found nothing
  to receive.)
\<close>

datatype main_pc = AtLoopHead | ParkedOnSend | AtGo | AtWait | MainReturned

datatype unit_pc = NotStarted | AtCheck | InTask | ReturnedCancelled | ReturnedAtEnd | ParkedOnReceive

record ('v, 'e, 'p) run_state =
  results :: "('v, 'e, 'p) TaskResult list"
  loop_i :: nat
  run_sem :: chan
  wg :: int
  ctxWithTO :: "ctx_error option"
  main :: main_pc
  units :: "unit_pc list"
  crashed :: "'p option option"

definition init_state :: "('v, 'e, 'p) task_call list \<Rightarrow> chan \<Rightarrow> ('v, 'e, 'p) run_state" where
  "init_state tasks c =
     \<lparr>results = replicate (length tasks) \<lparr>Value = None, Error = None, Index = 0\<rparr>,
      loop_i = 0, run_sem = c, wg = 0, ctxWithTO = None, main = AtLoopHead,
      units = replicate (length tasks) NotStarted, crashed = None\<rparr>"

text \<open>
  How a goroutine stands while its deferred functions run: its function has returned, a
  panic is in flight, or \<open>runtime.Goexit\<close> is ending it. \<open>recover()\<close> in a deferred
  function returns the value of the panic in flight and ends the panic; with no panic in
  flight it returns \<open>nil\<close> and changes nothing.
\<close>

datatype 'p unwinding = Returning | Panicking "'p option" | Goexiting

fun recover :: "'p unwinding \<Rightarrow> 'p option \<times> 'p unwinding" where
  "recover (Panicking pv) = (pv, Returning)"
| "recover Returning = (None, Returning)"
| "recover Goexiting = (None, Goexiting)"

text \<open>
  The body of a task's goroutine from the call \<open>t()\<close> on: the assignment to
  \<open>results[index]\<close> happens only if the call returns; then the deferred function runs,
  which stores a result only if \<open>recover()\<close> returns a value that is not \<open>nil\<close>. The
  result is the slice and how the goroutine stands after that deferred function.
\<close>

definition run_task ::
  "nat \<Rightarrow> ('v, 'e, 'p) task_call \<Rightarrow> ('v, 'e, 'p) TaskResult list
   \<Rightarrow> ('v, 'e, 'p) TaskResult list \<times> 'p unwinding" where
  "run_task index t rs =
     (let (rs1, unwinding) =
            (case t of
               CallReturns val err \<Rightarrow>
                 (rs[index := \<lparr>Value = val, Error = err, Index = int index\<rparr>], Returning)
             | CallPanics pv \<Rightarrow> (rs, Panicking pv)
             | CallGoexits \<Rightarrow> (rs, Goexiting));
          (r, unwinding') = recover unwinding
      in (case r of
            Some rv \<Rightarrow>
              (rs1[index := \<lparr>Value = None, Error = Some (PanicError rv), Index = int index\<rparr>],
               unwinding')
          | None \<Rightarrow> (rs1, unwinding')))"

text \<open>
  The first deferred function of a task's goroutine (the receive from \<open>sem\<close>, then
  \<open>wg.Done()\<close>), after which
  the goroutine is gone (at program point \<open>pc\<close>). A receive that takes the element of
  the parked sender completes that send: the calling goroutine goes on to its \<open>go\<close>
  statement.
\<close>

definition release :: "nat \<Rightarrow> unit_pc \<Rightarrow> ('v, 'e, 'p) run_state \<Rightarrow> ('v, 'e, 'p) run_state" where
  "release index pc s =
     (let (received, c) = chanrecv True (run_sem s)
      in if received
         then s\<lparr>run_sem := c, wg := wg s - 1,
                 main := (if 0 < sendq (run_sem s) then AtGo else main s),
                 units := (units s)[index := pc]\<rparr>
         else s\<lparr>run_sem := c, units := (units s)[index := ParkedOnReceive]\<rparr>)"

text \<open>
  One step of one goroutine, or the context becoming done. A step that the goroutine
  cannot take where it stands (it is parked, or not there) changes nothing; after a
  crash nothing runs.
\<close>

datatype event = MainStep | UnitCheck nat | UnitRun nat | ContextDone ctx_error

definition main_step :: "('v, 'e, 'p) task_call list \<Rightarrow> ('v, 'e, 'p) run_state \<Rightarrow> ('v, 'e, 'p) run_state" where
  "main_step tasks s =
     (case main s of
        AtLoopHead \<Rightarrow>
          if loop_i s < length tasks
          then (let (sent, c) = chansend True (run_sem s)
                in s\<lparr>wg := wg s + 1, run_sem := c,
                      main := (if sent then AtGo else ParkedOnSend)\<rparr>)
          else s\<lparr>main := AtWait\<rparr>
      | ParkedOnSend \<Rightarrow> s
      | AtGo \<Rightarrow> s\<lparr>units := (units s)[loop_i s := AtCheck], loop_i := loop_i s + 1,
                    main := AtLoopHead\<rparr>
      | AtWait \<Rightarrow> if wg s = 0 then s\<lparr>main := MainReturned\<rparr> else s
      | MainReturned \<Rightarrow> s)"

definition unit_check :: "nat \<Rightarrow> ('v, 'e, 'p) run_state \<Rightarrow> ('v, 'e, 'p) run_state" where
  "unit_check index s =
     (if index < length (units s) \<and> units s ! index = AtCheck
      then (case ctxWithTO s of
              Some e \<Rightarrow>
                release index ReturnedCancelled
                  (s\<lparr>results := (results s)
                        [index := \<lparr>Value = None, Error = Some (ContextError e), Index = int index\<rparr>]\<rparr>)
            | None \<Rightarrow> s\<lparr>units := (units s)[index := InTask]\<rparr>)
      else s)"

definition unit_run ::
  "('v, 'e, 'p) task_call list \<Rightarrow> nat \<Rightarrow> ('v, 'e, 'p) run_state \<Rightarrow> ('v, 'e, 'p) run_state" where
  "unit_run tasks index s =
     (if index < length (units s) \<and> index < length tasks \<and> units s ! index = InTask
      then (let (rs, unwinding) = run_task index (tasks ! index) (results s)
            in release index ReturnedAtEnd
                 (s\<lparr>results := rs,
                    crashed := (case unwinding of Panicking pv \<Rightarrow> Some pv | _ \<Rightarrow> None)\<rparr>))
      else s)"

definition context_done ::
  "Parallelizer \<Rightarrow> parent_context \<Rightarrow> ctx_error \<Rightarrow> ('v, 'e, 'p) run_state \<Rightarrow> ('v, 'e, 'p) run_state" where
  "context_done p ctx e s =
     (if ctxWithTO s = None \<and> (ctx \<noteq> Background \<or> (0 < Timeout p \<and> e = DeadlineExceeded))
      then s\<lparr>ctxWithTO := Some e\<rparr> else s)"

fun step ::
  "Parallelizer \<Rightarrow> parent_context \<Rightarrow> ('v, 'e, 'p) task_call list \<Rightarrow> ('v, 'e, 'p) run_state \<Rightarrow> event
   \<Rightarrow> ('v, 'e, 'p) run_state" where
  "step p ctx tasks s ev =
     (if crashed s \<noteq> None then s
      else case ev of
             MainStep \<Rightarrow> main_step tasks s
           | UnitCheck index \<Rightarrow> unit_check index s
           | UnitRun index \<Rightarrow> unit_run tasks index s
           | ContextDone e \<Rightarrow> context_done p ctx e s)"

text \<open>
  A run under a schedule: the list of the steps in the order in which the scheduler and
  the clock let them happen. \<open>make(chan struct{}, p.MaxGoroutines)\<close> comes first and
  panics on a negative size. The call has returned its results when the calling goroutine
  is past \<open>wg.Wait()\<close>; until then its result under the schedule is \<open>Blocked\<close>.
\<close>

definition execution ::
  "Parallelizer \<Rightarrow> parent_context \<Rightarrow> ('v, 'e, 'p) task_call list \<Rightarrow> event list
   \<Rightarrow> 'p option crash + ('v, 'e, 'p) run_state" where
  "execution p ctx tasks sched =
     (case makechan (MaxGoroutines p) of
        Inl pn \<Rightarrow> Inl (RuntimeError pn)
      | Inr c \<Rightarrow> Inr (foldl (step p ctx tasks) (init_state tasks c) sched))"

definition RunWithContext ::
  "Parallelizer \<Rightarrow> parent_context \<Rightarrow> ('v, 'e, 'p) task_call list \<Rightarrow> event list
   \<Rightarrow> 'p option crash + ('v, 'e, 'p) TaskResult list call" where
  "RunWithContext p ctx tasks sched =
     (case execution p ctx tasks sched of
        Inl cr \<Rightarrow> Inl cr
      | Inr s \<Rightarrow>
          (case crashed s of
             Some pv \<Rightarrow> Inl (Unrecovered pv)
           | None \<Rightarrow> if main s = MainReturned then Inr (Returned (results s)) else Inr Blocked))"

definition Run ::
  "Parallelizer \<Rightarrow> ('v, 'e, 'p) task_call list \<Rightarrow> event list
   \<Rightarrow> 'p option crash + ('v, 'e, 'p) TaskResult list call" where
  "Run p tasks sched = RunWithContext p Background tasks sched"

definition RunTasksWithTimeout ::
  "int \<Rightarrow> ('v, 'e, 'p) task_call list \<Rightarrow> event list
   \<Rightarrow> 'p option crash + ('v, 'e, 'p) TaskResult list call" where
  "RunTasksWithTimeout timeout tasks sched =
     (let parallelizer = NewParallelizer (int (length tasks)) timeout
      in Run parallelizer tasks sched)"

definition RunTasksConcurrently ::
  "int \<Rightarrow> ('v, 'e, 'p) task_call list \<Rightarrow> event list
   \<Rightarrow> 'p option crash + ('v, 'e, 'p) TaskResult list call" where
  "RunTasksConcurrently maxGoroutines tasks sched =
     (let parallelizer = NewParallelizer maxGoroutines 0
      in Run parallelizer tasks sched)"

text \<open>Whether the goroutine of task \<open>index\<close> called its task in the run.\<close>

definition task_was_called ::
  "Parallelizer \<Rightarrow> parent_context \<Rightarrow> ('v, 'e, 'p) task_call list \<Rightarrow> event list \<Rightarrow> nat \<Rightarrow> bool" where
  "task_was_called p ctx tasks sched index =
     (case execution p ctx tasks sched of
        Inl cr \<Rightarrow> False
      | Inr s \<Rightarrow> index < length (units s) \<and> units s ! index = ReturnedAtEnd)"

text \<open>
  The calls after which the goroutine stores a result: those that return, and those that
  panic with a value that \<open>recover()\<close> reports as not \<open>nil\<close>. After the others the
  element of \<open>results\<close> is what \<open>make\<close> put there, the zero value.
\<close>

fun recorded :: "('v, 'e, 'p) task_call \<Rightarrow> bool" where
  "recorded (CallReturns val err) = True"
| "recorded (CallPanics (Some pv)) = True"
| "recorded (CallPanics None) = False"
| "recorded CallGoexits = False"

text \<open>
  What the element of \<open>results\<close> at \<open>index\<close> is after the goroutine has called the
  task, and the result that the goroutine stores when it finds the context done.
\<close>

fun result_of_task :: "nat \<Rightarrow> ('v, 'e, 'p) task_call \<Rightarrow> ('v, 'e, 'p) TaskResult" where
  "result_of_task index (CallReturns val err) = \<lparr>Value = val, Error = err, Index = int index\<rparr>"
| "result_of_task index (CallPanics (Some pv)) =
     \<lparr>Value = None, Error = Some (PanicError pv), Index = int index\<rparr>"
| "result_of_task index (CallPanics None) = \<lparr>Value = None, Error = None, Index = 0\<rparr>"
| "result_of_task index CallGoexits = \<lparr>Value = None, Error = None, Index = 0\<rparr>"

definition result_cancelled :: "nat \<Rightarrow> ctx_error \<Rightarrow> ('v, 'e, 'p) TaskResult" where
  "result_cancelled index e = \<lparr>Value = None, Error = Some (ContextError e), Index = int index\<rparr>"

text \<open>The \<open>Parallelizer\<close> of the specification's convenience entry points.\<close>

definition spec_RunWithTimeout ::
  "int \<Rightarrow> ('v, 'e, 'p) task_call list \<Rightarrow> event list
   \<Rightarrow> 'p option crash + ('v, 'e, 'p) TaskResult list call" where
  "spec_RunWithTimeout timeout tasks sched =
     Run \<lparr>MaxGoroutines = int (length tasks), Timeout = timeout\<rparr> tasks sched"

definition spec_RunConcurrently ::
  "int \<Rightarrow> ('v, 'e, 'p) task_call list \<Rightarrow> event list
   \<Rightarrow> 'p option crash + ('v, 'e, 'p) TaskResult list call" where
  "spec_RunConcurrently maxConcurrency tasks sched =
     Run \<lparr>MaxGoroutines = maxConcurrency, Timeout = 0\<rparr> tasks sched"

text \<open>
  What holds in every state of a run. The loop variable counts the goroutines started; a
  goroutine that has left has stored its result; each goroutine that is running holds one
  element of \<open>sem\<close> and one count of the wait group, and so does the calling goroutine
  between its send and its \<open>go\<close> statement; no panic is in flight.
\<close>

definition is_active :: "unit_pc \<Rightarrow> bool" where
  "is_active u = (u = AtCheck \<or> u = InTask)"

definition active :: "('v, 'e, 'p) run_state \<Rightarrow> int" where
  "active s = int (length (filter is_active (units s)))"

definition populated ::
  "nat \<Rightarrow> ('v, 'e, 'p) task_call \<Rightarrow> unit_pc \<Rightarrow> ('v, 'e, 'p) TaskResult \<Rightarrow> bool" where
  "populated k t u r =
     ((u = ReturnedAtEnd \<longrightarrow> r = result_of_task k t)
      \<and> (u = ReturnedCancelled \<longrightarrow> (\<exists>e. r = result_cancelled k e))
      \<and> (u \<noteq> ReturnedAtEnd \<and> u \<noteq> ReturnedCancelled
           \<longrightarrow> r = \<lparr>Value = None, Error = None, Index = 0\<rparr>))"

definition run_inv ::
  "Parallelizer \<Rightarrow> ('v, 'e, 'p) task_call list \<Rightarrow> ('v, 'e, 'p) run_state \<Rightarrow> bool" where
  "run_inv p tasks s =
     (length (results s) = length tasks \<and> length (units s) = length tasks
      \<and> loop_i s \<le> length tasks
      \<and> (main s = ParkedOnSend \<or> main s = AtGo \<longrightarrow> loop_i s < length tasks)
      \<and> (main s = AtWait \<or> main s = MainReturned \<longrightarrow> loop_i s = length tasks)
      \<and> (\<forall>k<length tasks. (units s ! k = NotStarted) = (loop_i s \<le> k))
      \<and> (\<forall>k<length tasks. units s ! k \<noteq> ParkedOnReceive)
      \<and> (\<forall>k<length tasks. populated k (tasks ! k) (units s ! k) (results s ! k))
      \<and> cap (run_sem s) = MaxGoroutines p
      \<and> len (run_sem s) = active s + (if main s = AtGo then 1 else 0)
      \<and> sendq (run_sem s) = (if main s = ParkedOnSend then 1 else 0)
      \<and> (main s = ParkedOnSend \<longrightarrow> cap (run_sem s) \<le> len (run_sem s))
      \<and> recvq (run_sem s) = 0
      \<and> wg s = active s + (if main s = ParkedOnSend \<or> main s = AtGo then 1 else 0)
      \<and> (main s = MainReturned \<longrightarrow> active s = 0)
      \<and> crashed s = None)"

text \<open>
  How far a run is from its end: the steps that each goroutine and the context still have
  before them. Every step that changes the state makes this number smaller.
\<close>

fun unit_rank :: "unit_pc \<Rightarrow> nat" where
  "unit_rank NotStarted = 3"
| "unit_rank AtCheck = 2"
| "unit_rank InTask = 1"
| "unit_rank ReturnedCancelled = 0"
| "unit_rank ReturnedAtEnd = 0"
| "unit_rank ParkedOnReceive = 0"

fun main_rank :: "main_pc \<Rightarrow> nat" where
  "main_rank AtLoopHead = 2"
| "main_rank ParkedOnSend = 1"
| "main_rank AtGo = 0"
| "main_rank AtWait = 1"
| "main_rank MainReturned = 0"

definition steps_left :: "('v, 'e, 'p) run_state \<Rightarrow> nat" where
  "steps_left s =
     3 * sum_list (map unit_rank (units s)) + main_rank (main s)
       + (if ctxWithTO s = None then 1 else 0)"

text \<open>A run whose calling goroutine cannot get past its first send on \<open>sem\<close>.\<close>

definition stuck_at_first_send :: "('v, 'e, 'p) run_state \<Rightarrow> bool" where
  "stuck_at_first_send s =
     ((main s = AtLoopHead \<or> main s = ParkedOnSend) \<and> loop_i s = 0
      \<and> cap (run_sem s) = 0 \<and> len (run_sem s) = 0 \<and> recvq (run_sem s) = 0
      \<and> (\<forall>u \<in> set (units s). u = NotStarted))"

subsection \<open>BatchProcess\<close>

text \<open>
  Go's \<open>int\<close> has 64 bits here; \<open>+\<close> and \<open>-\<close> wrap around silently, in two's
  complement. \<open>len(items)\<close> is the length of the list (a slice has fewer than \<open>2^63\<close>
  elements).
\<close>

definition MaxInt :: int where
  "MaxInt = 2 ^ 63 - 1"

definition wrap64 :: "int \<Rightarrow> int" where
  "wrap64 x = (x + 2 ^ 63) mod 2 ^ 64 - 2 ^ 63"

text \<open>
  The splitting loop, \<open>for i := 0; i < len(items); i += batchSize\<close>. The slice
  expression \<open>items[i:end]\<close> panics unless \<open>0 \<le> i \<le> end\<close> (\<open>end\<close> is at most
  \<open>len(items)\<close> after the clamp). With \<open>batchSize = 0\<close> the loop would not end, so its
  result is an \<open>option\<close>, \<open>None\<close> for a loop that runs for ever; \<open>BatchProcess\<close>
  divides by \<open>batchSize\<close> before it enters the loop.
\<close>

partial_function (option) split_batches ::
  "'a list \<Rightarrow> int \<Rightarrow> int \<Rightarrow> 'a list list \<Rightarrow> (panic + 'a list list) option" where
  "split_batches items batchSize i batches =
     (if i < int (length items)
      then (let end0 = wrap64 (i + batchSize);
                end1 = (if end0 > int (length items) then int (length items) else end0)
            in if i < 0 \<or> end1 < i then Some (Inl SliceBoundsOutOfRange)
               else split_batches items batchSize (wrap64 (i + batchSize))
                      (batches @ [take (nat (end1 - i)) (drop (nat i) items)]))
      else Some (Inr batches))"

declare split_batches.simps [code]

text \<open>
  \<open>processBatch\<close> is the caller's function: called on a batch it returns an error
  (\<open>nil\<close> or not), panics (with the value that \<open>recover()\<close> reports, \<open>None\<close> for
  \<open>nil\<close>), or ends its goroutine with \<open>runtime.Goexit\<close>. The task made for a batch
  calls it and returns \<open>nil\<close> with its error.
\<close>

datatype ('e, 'p) func_end =
    FuncReturns "('e, 'p) error option"
  | FuncPanics "'p option"
  | FuncGoexits

definition batch_task ::
  "('a list \<Rightarrow> ('e, 'p) func_end) \<Rightarrow> 'a list \<Rightarrow> ('v, 'e, 'p) task_call" where
  "batch_task processBatch batchCopy =
     (case processBatch batchCopy of
        FuncReturns err \<Rightarrow> CallReturns None err
      | FuncPanics pv \<Rightarrow> CallPanics pv
      | FuncGoexits \<Rightarrow> CallGoexits)"

text \<open>The last loop: the first result whose error is not \<open>nil\<close> decides.\<close>

fun first_error :: "('v, 'e, 'p) TaskResult list \<Rightarrow> ('e, 'p) error option" where
  "first_error [] = None"
| "first_error (r # rs) = (if Error r \<noteq> None then Error r else first_error rs)"

text \<open>
  \<open>BatchProcess\<close> under a schedule of the parallel run. \<open>make([][]T, 0, batchCount)\<close>
  panics on a negative capacity. (The limit that the memory puts on the capacity is
  outside the model.)
\<close>

definition BatchProcess ::
  "'a list \<Rightarrow> int \<Rightarrow> int \<Rightarrow> ('a list \<Rightarrow> ('e, 'p) func_end) \<Rightarrow> event list
   \<Rightarrow> ('p option crash + ('e, 'p) error option call) option" where
  "BatchProcess items batchSize maxGoroutines processBatch sched =
     (if batchSize = 0 then Some (Inl (RuntimeError IntegerDivideByZero))
      else
        let batchCount =
              wrap64 (quo (wrap64 (wrap64 (int (length items) + batchSize) - 1)) batchSize)
        in if batchCount < 0 then Some (Inl (RuntimeError MakesliceCapOutOfRange))
           else
             (case split_batches items batchSize 0 [] of
                None \<Rightarrow> None
              | Some (Inl pn) \<Rightarrow> Some (Inl (RuntimeError pn))
              | Some (Inr batches) \<Rightarrow>
                  (let tasks = map (batch_task processBatch) batches
                          :: (unit, 'e, 'p) task_call list
                   in case RunTasksConcurrently maxGoroutines tasks sched of
                        Inl cr \<Rightarrow> Some (Inl cr)
                      | Inr Blocked \<Rightarrow> Some (Inr Blocked)
                      | Inr (Returned rs) \<Rightarrow> Some (Inr (Returned (first_error rs))))))"

text \<open>
  The specification's words: consecutive chunks of at most \<open>chunkSize\<close> elements, the
  last of which may be smaller; the error of a chunk (the error that the chunk function
  returns, or the error made from its panic when \<open>recover()\<close> reports the value; a chunk
  function that ends in another way leaves no error); the first error that is not
  \<open>nil\<close>.
\<close>

function spec_chunks :: "nat \<Rightarrow> 'a list \<Rightarrow> 'a list list" where
  "spec_chunks chunkSize xs =
     (if chunkSize = 0 \<or> xs = [] then []
      else take chunkSize xs # spec_chunks chunkSize (drop chunkSize xs))"
  by pat_completeness auto
termination
  by (relation "measure (\<lambda>(chunkSize, xs). length xs)") auto

definition chunk_error :: "('e, 'p) func_end \<Rightarrow> ('e, 'p) error option" where
  "chunk_error r =
     (case r of
        FuncReturns err \<Rightarrow> err
      | FuncPanics (Some pv) \<Rightarrow> Some (PanicError pv)
      | FuncPanics None \<Rightarrow> None
      | FuncGoexits \<Rightarrow> None)"

fun spec_first_non_nil :: "'x option list \<Rightarrow> 'x option" where
  "spec_first_non_nil [] = None"
| "spec_first_non_nil (e # es) = (if e \<noteq> None then e else spec_first_non_nil es)"

subsection \<open>ThreadPool\<close>

text \<open>
  The pool is used by goroutines of three kinds: its workers, the callers of \<open>Submit\<close>
  and the callers of \<open>Stop\<close>. The state holds the fields of the struct (the mutex
  \<open>mu\<close> as held or free, the context as cancelled or not, the channel \<open>tasks\<close> with
  its buffer, its capacity, its closed flag and its queues of parked senders and
  receivers) and the program point of every goroutine. A task is named by the number of
  the \<open>Submit\<close> call that brings it. \<open>taskCount\<close> is an \<open>int64\<close>; the model lets
  it be an integer (it would take \<open>2^63\<close> submissions to wrap it around).

  A worker is at its \<open>select\<close>, parked in it, in the call of a task, or gone. A call of
  \<open>Submit\<close> is at the lock, at the increment, at its \<open>select\<close>, parked in it, at the
  decrement of the cancelled branch, or over: returned (with an error or \<open>nil\<close>) or
  panicked. A call of \<open>Stop\<close> is at the lock, at \<open>cancelFunc()\<close>, at
  \<open>close(p.tasks)\<close>, in \<open>wg.Wait()\<close>, or has returned.
\<close>

datatype worker_pc = W_Select | W_Parked | W_Run nat | W_Exited

datatype submit_pc =
  S_Lock | S_Increment | S_Select | S_Parked | S_Decrement
  | S_Returned "(unit, unit) error option" | S_Panicked panic

datatype stop_pc = T_Lock | T_Cancel | T_Close | T_Wait | T_Returned

record ThreadPool =
  workers :: int
  tasks_buf :: "nat list"
  tasks_cap :: int
  tasks_closed :: bool
  tasks_sendq :: "nat list"
  tasks_recvq :: "nat list"
  taskCount :: int
  cancelled :: bool
  stopped :: bool
  mu :: bool
  worker_pcs :: "worker_pc list"
  submit_pcs :: "submit_pc list"
  stop_pcs :: "stop_pc list"
  process_crashed :: "nat option"

text \<open>
  \<open>NewThreadPool\<close> makes the channel (a negative \<open>queueSize\<close> panics) and starts the
  workers. \<open>nsubmit\<close> and \<open>nstop\<close> are the calls of \<open>Submit\<close> and \<open>Stop\<close> that
  the program is going to make, each at a moment of its own.
\<close>

definition NewThreadPool :: "int \<Rightarrow> int \<Rightarrow> nat \<Rightarrow> nat \<Rightarrow> panic + ThreadPool" where
  "NewThreadPool nworkers queueSize nsubmit nstop =
     (if queueSize < 0 then Inl MakechanSizeOutOfRange
      else Inr \<lparr>workers = nworkers, tasks_buf = [], tasks_cap = queueSize, tasks_closed = False,
                tasks_sendq = [], tasks_recvq = [], taskCount = 0, cancelled = False,
                stopped = False, mu = False,
                worker_pcs = replicate (nat nworkers) W_Select,
                submit_pcs = replicate nsubmit S_Lock,
                stop_pcs = replicate nstop T_Lock,
                process_crashed = None\<rparr>)"

text \<open>
  The send \<open>p.tasks <- task\<close> of call \<open>j\<close>, once the \<open>select\<close> has chosen it: on a
  closed channel it panics; else the task goes to the receiver parked longest, or into
  the buffer.
\<close>

definition send_task :: "nat \<Rightarrow> ThreadPool \<Rightarrow> ThreadPool" where
  "send_task j p =
     (if tasks_closed p
      then p\<lparr>submit_pcs := (submit_pcs p)[j := S_Panicked SendOnClosedChannel]\<rparr>
      else case tasks_recvq p of
             k # ks \<Rightarrow> p\<lparr>tasks_recvq := ks, worker_pcs := (worker_pcs p)[k := W_Run j],
                          submit_pcs := (submit_pcs p)[j := S_Returned None]\<rparr>
           | [] \<Rightarrow> p\<lparr>tasks_buf := tasks_buf p @ [j],
                       submit_pcs := (submit_pcs p)[j := S_Returned None]\<rparr>)"

definition send_ready :: "ThreadPool \<Rightarrow> bool" where
  "send_ready p =
     (tasks_closed p \<or> tasks_recvq p \<noteq> [] \<or> int (length (tasks_buf p)) < tasks_cap p)"

text \<open>
  \<open>Submit\<close>, step by step. In the \<open>select\<close>, when both the send and \<open>ctx.Done()\<close> can
  proceed the runtime picks one of them at random: \<open>prefer_done\<close> is its pick. When
  neither can, the caller parks on both channels.
\<close>

definition submit_step :: "nat \<Rightarrow> bool \<Rightarrow> ThreadPool \<Rightarrow> ThreadPool" where
  "submit_step j prefer_done p =
     (if j < length (submit_pcs p) then
        (case submit_pcs p ! j of
           S_Lock \<Rightarrow>
             if mu p then p
             else if stopped p
               then p\<lparr>submit_pcs := (submit_pcs p)[j := S_Returned (Some PoolStopped)]\<rparr>
               else p\<lparr>submit_pcs := (submit_pcs p)[j := S_Increment]\<rparr>
         | S_Increment \<Rightarrow>
             p\<lparr>taskCount := taskCount p + 1, submit_pcs := (submit_pcs p)[j := S_Select]\<rparr>
         | S_Select \<Rightarrow>
             if send_ready p \<and> \<not> (cancelled p \<and> prefer_done) then send_task j p
             else if cancelled p then p\<lparr>submit_pcs := (submit_pcs p)[j := S_Decrement]\<rparr>
             else p\<lparr>tasks_sendq := tasks_sendq p @ [j],
                    submit_pcs := (submit_pcs p)[j := S_Parked]\<rparr>
         | S_Parked \<Rightarrow> p
         | S_Decrement \<Rightarrow>
             p\<lparr>taskCount := taskCount p - 1,
               submit_pcs := (submit_pcs p)[j := S_Returned (Some PoolStopped)]\<rparr>
         | S_Returned err \<Rightarrow> p
         | S_Panicked pn \<Rightarrow> p)
      else p)"

text \<open>
  The receive \<open>task, ok := <-p.tasks\<close> of worker \<open>k\<close>, once chosen: from a closed
  and empty channel it gets \<open>ok = false\<close> and the worker returns; with a sender parked
  it takes the head of the buffer and the sender's task fills the buffer (or comes
  directly, if there is no buffer), and the sender's \<open>Submit\<close> returns \<open>nil\<close>; else it
  takes the head of the buffer.
\<close>

definition recv_task :: "nat \<Rightarrow> ThreadPool \<Rightarrow> ThreadPool" where
  "recv_task k p =
     (case tasks_sendq p of
        j # js \<Rightarrow>
          (case tasks_buf p of
             [] \<Rightarrow> p\<lparr>tasks_sendq := js, worker_pcs := (worker_pcs p)[k := W_Run j],
                      submit_pcs := (submit_pcs p)[j := S_Returned None]\<rparr>
           | t # ts \<Rightarrow> p\<lparr>tasks_sendq := js, tasks_buf := ts @ [j],
                          worker_pcs := (worker_pcs p)[k := W_Run t],
                          submit_pcs := (submit_pcs p)[j := S_Returned None]\<rparr>)
      | [] \<Rightarrow>
          (case tasks_buf p of
             t # ts \<Rightarrow> p\<lparr>tasks_buf := ts, worker_pcs := (worker_pcs p)[k := W_Run t]\<rparr>
           | [] \<Rightarrow> p\<lparr>worker_pcs := (worker_pcs p)[k := W_Exited]\<rparr>))"

definition recv_ready :: "ThreadPool \<Rightarrow> bool" where
  "recv_ready p = (tasks_closed p \<or> tasks_sendq p \<noteq> [] \<or> tasks_buf p \<noteq> [])"

text \<open>
  The worker's loop. The call \<open>task()\<close> has no deferred function around it: a task
  that returns (with an error or without) lets the worker decrement the counter and go
  back to its \<open>select\<close>; a task that panics unwinds the worker's goroutine, and a panic
  that leaves a goroutine ends the process.
\<close>

definition worker_step ::
  "('v, 'e, 'p) Task list \<Rightarrow> nat \<Rightarrow> bool \<Rightarrow> ThreadPool \<Rightarrow> ThreadPool" where
  "worker_step tasks k prefer_done p =
     (if k < length (worker_pcs p) then
        (case worker_pcs p ! k of
           W_Select \<Rightarrow>
             if recv_ready p \<and> \<not> (cancelled p \<and> prefer_done) then recv_task k p
             else if cancelled p then p\<lparr>worker_pcs := (worker_pcs p)[k := W_Exited]\<rparr>
             else p\<lparr>tasks_recvq := tasks_recvq p @ [k],
                    worker_pcs := (worker_pcs p)[k := W_Parked]\<rparr>
         | W_Parked \<Rightarrow> p
         | W_Run j \<Rightarrow>
             (if j < length tasks then
                (case tasks ! j of
                   TaskReturns val err \<Rightarrow>
                     p\<lparr>taskCount := taskCount p - 1,
                       worker_pcs := (worker_pcs p)[k := W_Select]\<rparr>
                 | TaskPanics pv \<Rightarrow> p\<lparr>process_crashed := Some j\<rparr>)
              else p)
         | W_Exited \<Rightarrow> p)
      else p)"

text \<open>
  \<open>Stop\<close>, step by step; it holds \<open>mu\<close> from its lock to its return. Cancelling the
  context wakes every goroutine parked in a \<open>select\<close> with \<open>ctx.Done()\<close>: the workers
  return, the callers of \<open>Submit\<close> go to the cancelled branch. Closing the channel wakes
  who is still parked on it: a receiver gets \<open>ok = false\<close>, a sender panics.
  \<open>wg.Wait()\<close> returns when every worker is gone.
\<close>

definition stop_step :: "nat \<Rightarrow> ThreadPool \<Rightarrow> ThreadPool" where
  "stop_step i p =
     (if i < length (stop_pcs p) then
        (case stop_pcs p ! i of
           T_Lock \<Rightarrow>
             if mu p then p
             else if stopped p then p\<lparr>stop_pcs := (stop_pcs p)[i := T_Returned]\<rparr>
             else p\<lparr>stopped := True, mu := True, stop_pcs := (stop_pcs p)[i := T_Cancel]\<rparr>
         | T_Cancel \<Rightarrow>
             p\<lparr>cancelled := True, tasks_sendq := [], tasks_recvq := [],
               worker_pcs := map (\<lambda>pc. if pc = W_Parked then W_Exited else pc) (worker_pcs p),
               submit_pcs := map (\<lambda>pc. if pc = S_Parked then S_Decrement else pc) (submit_pcs p),
               stop_pcs := (stop_pcs p)[i := T_Close]\<rparr>
         | T_Close \<Rightarrow>
             p\<lparr>tasks_closed := True, tasks_sendq := [], tasks_recvq := [],
               worker_pcs := map (\<lambda>pc. if pc = W_Parked then W_Exited else pc) (worker_pcs p),
               submit_pcs := map (\<lambda>pc. if pc = S_Parked then S_Panicked SendOnClosedChannel else pc)
                               (submit_pcs p),
               stop_pcs := (stop_pcs p)[i := T_Wait]\<rparr>
         | T_Wait \<Rightarrow>
             if \<forall>pc \<in> set (worker_pcs p). pc = W_Exited
             then p\<lparr>mu := False, stop_pcs := (stop_pcs p)[i := T_Returned]\<rparr>
             else p
         | T_Returned \<Rightarrow> p)
      else p)"

datatype pool_event = SubmitStep nat bool | WorkerStep nat bool | StopStep nat

fun pool_step :: "('v, 'e, 'p) Task list \<Rightarrow> ThreadPool \<Rightarrow> pool_event \<Rightarrow> ThreadPool" where
  "pool_step tasks p ev =
     (if process_crashed p \<noteq> None then p
      else case ev of
             SubmitStep j prefer_done \<Rightarrow> submit_step j prefer_done p
           | WorkerStep k prefer_done \<Rightarrow> worker_step tasks k prefer_done p
           | StopStep i \<Rightarrow> stop_step i p)"

definition pool_run :: "('v, 'e, 'p) Task list \<Rightarrow> ThreadPool \<Rightarrow> pool_event list \<Rightarrow> ThreadPool" where
  "pool_run tasks p evs = foldl (pool_step tasks) p evs"







section \<open>Properties\<close>

subsection \<open>SafeMap lookups\<close>

text \<open>
  Claim C10. For a key that is not in the map, \<open>Get\<close> returns \<open>nil\<close>. For a key that is
  in the map, \<open>GetWithDefault\<close> returns the stored value, also when that value is \<open>nil\<close>;
  the default comes back only for an absent key. So \<open>Get\<close> answers \<open>nil\<close> both for an
  absent key and for a key stored with \<open>nil\<close>, although \<open>Has\<close> tells the two maps apart.
\<close>

theorem C10_SafeMap_Get_absent_or_nil:
  "(data m key = None \<longrightarrow> SafeMap_Get m key = None \<and> SafeMap_GetWithDefault m key d = d)
   \<and> (data m key = Some val \<longrightarrow> SafeMap_GetWithDefault m key d = val \<and> SafeMap_Get m key = val)
   \<and> SafeMap_GetWithDefault (SafeMap_Set m key None) key d = None
   \<and> SafeMap_Get (SafeMap_Set m key None) key = SafeMap_Get (SafeMap_Delete m key) key
   \<and> SafeMap_Has (SafeMap_Set m key None) key
   \<and> \<not> SafeMap_Has (SafeMap_Delete m key) key"
  by (simp add: SafeMap_Get_def SafeMap_GetWithDefault_def SafeMap_Set_def
      SafeMap_Delete_def SafeMap_Has_def)

theorem C10_SafeMap_Get_witness:
  "data (SafeMap_Set (NewSafeMap :: nat SafeMap) ''k'' None) ''absent'' = None
   \<and> SafeMap_Get (SafeMap_Set (NewSafeMap :: nat SafeMap) ''k'' None) ''absent'' = None
   \<and> SafeMap_GetWithDefault (SafeMap_Set (NewSafeMap :: nat SafeMap) ''k'' None) ''absent'' (Some 7) = Some 7
   \<and> data (SafeMap_Set (NewSafeMap :: nat SafeMap) ''k'' None) ''k'' = Some None
   \<and> SafeMap_GetWithDefault (SafeMap_Set (NewSafeMap :: nat SafeMap) ''k'' None) ''k'' (Some 7) = None
   \<and> SafeMap_Get (SafeMap_Set (NewSafeMap :: nat SafeMap) ''k'' None) ''k'' = None"
  using C10_SafeMap_Get_absent_or_nil
          [of "SafeMap_Set (NewSafeMap :: nat SafeMap) ''k'' None" "''absent''" "Some 7" None]
        C10_SafeMap_Get_absent_or_nil
          [of "SafeMap_Set (NewSafeMap :: nat SafeMap) ''k'' None" "''k''" "Some 7" None]
  by (simp add: SafeMap_Set_def NewSafeMap_def)

subsection \<open>Semaphore bounds\<close>

lemma chansend_bounds:
  "0 \<le> len c \<Longrightarrow> len c \<le> cap c \<Longrightarrow>
   0 \<le> len (snd (chansend b c)) \<and> len (snd (chansend b c)) \<le> cap (snd (chansend b c))
   \<and> cap (snd (chansend b c)) = cap c"
  by (simp add: chansend_def)

lemma chanrecv_bounds:
  "0 \<le> len c \<Longrightarrow> len c \<le> cap c \<Longrightarrow>
   0 \<le> len (snd (chanrecv b c)) \<and> len (snd (chanrecv b c)) \<le> cap (snd (chanrecv b c))
   \<and> cap (snd (chanrecv b c)) = cap c"
  by (simp add: chanrecv_def)

lemma sem_step_bounds:
  assumes "0 \<le> len (sem s)" and "len (sem s) \<le> cap (sem s)"
  shows "0 \<le> len (sem (sem_step s x)) \<and> len (sem (sem_step s x)) \<le> cap (sem (sem_step s x))
         \<and> cap (sem (sem_step s x)) = cap (sem s)"
proof (cases x)
  case OpAcquire
  then show ?thesis
    using chansend_bounds [OF assms, of True]
    by (auto simp: Acquire_def split: prod.splits)
next
  case (OpAcquireWithTimeout timer_first)
  then show ?thesis
    using chansend_bounds [OF assms, of True] assms
    by (auto simp: AcquireWithTimeout_def split: prod.splits)
next
  case OpTryAcquire
  then show ?thesis
    using chansend_bounds [OF assms, of False] assms
    by (auto simp: TryAcquire_def split: prod.splits)
next
  case OpRelease
  then show ?thesis
    using chanrecv_bounds [OF assms, of True]
    by (auto simp: Release_def split: prod.splits)
qed

lemma sem_run_bounds:
  "0 \<le> len (sem s) \<Longrightarrow> len (sem s) \<le> cap (sem s) \<Longrightarrow>
   0 \<le> len (sem (sem_run s ops)) \<and> len (sem (sem_run s ops)) \<le> cap (sem (sem_run s ops))
   \<and> cap (sem (sem_run s ops)) = cap (sem s)"
proof (induction ops arbitrary: s)
  case Nil
  then show ?case by (simp add: sem_run_def)
next
  case (Cons x xs)
  have step: "0 \<le> len (sem (sem_step s x))" "len (sem (sem_step s x)) \<le> cap (sem (sem_step s x))"
    "cap (sem (sem_step s x)) = cap (sem s)"
    using sem_step_bounds [OF Cons.prems, of x] by simp_all
  from Cons.IH [OF step(1,2)] step(3) show ?case
    by (simp add: sem_run_def)
qed

text \<open>With matched releases no receiver is ever parked on the channel.\<close>

lemma sem_step_no_receiver:
  "recvq (sem s) = 0 \<Longrightarrow> (x = OpRelease \<longrightarrow> 0 < outstanding s) \<Longrightarrow>
   recvq (sem (sem_step s x)) = 0"
  by (cases x)
     (simp_all add: Acquire_def AcquireWithTimeout_def TryAcquire_def Release_def
        chansend_def chanrecv_def outstanding_def)

lemma sem_run_no_receiver:
  "recvq (sem s) = 0 \<Longrightarrow> matched s ops \<Longrightarrow> recvq (sem (sem_run s ops)) = 0"
proof (induction ops arbitrary: s)
  case Nil
  then show ?case by (simp add: sem_run_def)
next
  case (Cons x xs)
  from Cons.prems have "recvq (sem (sem_step s x)) = 0"
    by (intro sem_step_no_receiver) simp_all
  moreover from Cons.prems have "matched (sem_step s x) xs" by simp
  ultimately show ?case
    using Cons.IH by (simp add: sem_run_def)
qed

lemma matched_take: "matched s ops \<Longrightarrow> matched s (take n ops)"
proof (induction ops arbitrary: s n)
  case Nil
  then show ?case by simp
next
  case (Cons x xs)
  then show ?case by (cases n) simp_all
qed

lemma TryAcquire_full:
  "recvq (sem s) = 0 \<Longrightarrow> len (sem s) = cap (sem s) \<Longrightarrow> TryAcquire s = (False, s)"
  by (simp add: TryAcquire_def chansend_def)

lemma NewSemaphore_Inr:
  "NewSemaphore C = Inr s0 \<Longrightarrow>
   0 \<le> C \<and> cap (sem s0) = C \<and> len (sem s0) = 0 \<and> recvq (sem s0) = 0 \<and> sendq (sem s0) = 0"
  by (auto simp: NewSemaphore_def makechan_def split: if_splits)

text \<open>
  Claim C6. Take a semaphore of capacity \<open>C\<close> and any sequence of \<open>Acquire\<close>,
  \<open>AcquireWithTimeout\<close>, \<open>TryAcquire\<close> and \<open>Release\<close> calls in which every release
  matches an earlier successful acquire. After every prefix of the sequence the number
  of outstanding slots lies between \<open>0\<close> and \<open>C\<close>; and wherever it equals \<open>C\<close>,
  \<open>TryAcquire\<close> returns false at once and leaves the semaphore as it was.
\<close>

theorem C6_Semaphore_outstanding_bounded:
  assumes "NewSemaphore C = Inr s0" and "matched s0 ops"
  shows "0 \<le> outstanding (sem_run s0 (take n ops))
         \<and> outstanding (sem_run s0 (take n ops)) \<le> C
         \<and> (outstanding (sem_run s0 (take n ops)) = C \<longrightarrow>
              TryAcquire (sem_run s0 (take n ops)) = (False, sem_run s0 (take n ops)))"
proof -
  let ?s = "sem_run s0 (take n ops)"
  from assms(1) have init: "0 \<le> len (sem s0)" "len (sem s0) \<le> cap (sem s0)"
    "cap (sem s0) = C" "recvq (sem s0) = 0"
    using NewSemaphore_Inr by auto
  have bounds: "0 \<le> len (sem ?s)" "len (sem ?s) \<le> cap (sem ?s)" "cap (sem ?s) = C"
    using sem_run_bounds [OF init(1,2), of "take n ops"] init(3) by simp_all
  have "recvq (sem ?s) = 0"
    using sem_run_no_receiver [OF init(4) matched_take [OF assms(2)]] .
  then have "len (sem ?s) = C \<longrightarrow> TryAcquire ?s = (False, ?s)"
    using TryAcquire_full bounds(3) by simp
  with bounds show ?thesis
    by (simp add: outstanding_def)
qed

theorem C6_Semaphore_witness:
  "NewSemaphore 2 = Inr \<lparr>sem = \<lparr>cap = 2, len = 0, sendq = 0, recvq = 0\<rparr>\<rparr>
   \<and> matched \<lparr>sem = \<lparr>cap = 2, len = 0, sendq = 0, recvq = 0\<rparr>\<rparr>
         [OpAcquire, OpTryAcquire, OpTryAcquire, OpRelease]
   \<and> outstanding (sem_run \<lparr>sem = \<lparr>cap = 2, len = 0, sendq = 0, recvq = 0\<rparr>\<rparr>
         (take 3 [OpAcquire, OpTryAcquire, OpTryAcquire, OpRelease])) = 2
   \<and> TryAcquire (sem_run \<lparr>sem = \<lparr>cap = 2, len = 0, sendq = 0, recvq = 0\<rparr>\<rparr>
         (take 3 [OpAcquire, OpTryAcquire, OpTryAcquire, OpRelease]))
       = (False, \<lparr>sem = \<lparr>cap = 2, len = 2, sendq = 0, recvq = 0\<rparr>\<rparr>)"
proof -
  let ?s0 = "\<lparr>sem = \<lparr>cap = 2, len = 0, sendq = 0, recvq = 0\<rparr>\<rparr>"
  let ?ops = "[OpAcquire, OpTryAcquire, OpTryAcquire, OpRelease]"
  have new: "NewSemaphore 2 = Inr ?s0"
    by (simp add: NewSemaphore_def makechan_def)
  have run: "sem_run ?s0 (take 3 ?ops) = \<lparr>sem = \<lparr>cap = 2, len = 2, sendq = 0, recvq = 0\<rparr>\<rparr>"
    by (simp add: sem_run_def Acquire_def TryAcquire_def chansend_def)
  have m: "matched ?s0 ?ops"
    by (simp add: Acquire_def TryAcquire_def chansend_def outstanding_def)
  from C6_Semaphore_outstanding_bounded [OF new m, of 3] new m run show ?thesis
    by (simp add: outstanding_def)
qed

subsection \<open>RateLimiter construction\<close>

lemma quo_Second_pos: "0 < rate \<Longrightarrow> (0 < quo Second rate) = (rate \<le> Second)"
  by (simp add: quo_def Second_def pos_imp_zdiv_pos_iff)

lemma quo_Second_neg: "rate < 0 \<Longrightarrow> quo Second rate \<le> 0"
proof -
  assume "rate < 0"
  then have "0 \<le> Second div \<bar>rate\<bar>"
    by (simp add: Second_def pos_imp_zdiv_nonneg_iff)
  with \<open>rate < 0\<close> show ?thesis
    by (simp add: quo_def Second_def)
qed

text \<open>
  Claim C7, as the code has it. \<open>NewRateLimiter\<close> computes the interval as one second
  divided by the rate, truncating. Rate \<open>0\<close> fails at once, with the division's panic.
  Every other rate yields a limiter: its interval is positive exactly for rates from \<open>1\<close>
  to \<open>10^9\<close>; for a negative rate, or one above \<open>10^9\<close>, the limiter is created with an
  interval that is not positive, and the generator goroutine panics when it creates its
  ticker.
\<close>

theorem C7_NewRateLimiter_interval:
  "(rate = 0 \<longrightarrow> NewRateLimiter rate = Inl IntegerDivideByZero)
   \<and> (rate \<noteq> 0 \<longrightarrow>
        (\<exists>r. NewRateLimiter rate = Inr r
           \<and> interval r = quo Second rate
           \<and> (0 < interval r) = (1 \<le> rate \<and> rate \<le> Second)
           \<and> generator r = Spawned
           \<and> (interval r \<le> 0 \<longrightarrow>
                generator (generateTokens_start r) = Panicked NonPositiveTickerInterval)
           \<and> (0 < interval r \<longrightarrow> generator (generateTokens_start r) = Ticking)))"
proof (cases "rate = 0")
  case True
  then show ?thesis by (simp add: NewRateLimiter_def)
next
  case False
  let ?r = "\<lparr>interval = quo Second rate, tokens = \<lparr>cap = 1, len = 0, sendq = 0, recvq = 0\<rparr>,
             ctx_done = False, generator = Spawned\<rparr>"
  have new: "NewRateLimiter rate = Inr ?r"
    using False by (simp add: NewRateLimiter_def makechan_def)
  have pos: "(0 < quo Second rate) = (1 \<le> rate \<and> rate \<le> Second)"
  proof (cases "0 < rate")
    case True
    then show ?thesis using quo_Second_pos [of rate] by simp
  next
    case neg: False
    with False have "rate < 0" by simp
    then show ?thesis using quo_Second_neg [of rate] by simp
  qed
  have "interval ?r = quo Second rate \<and> (0 < interval ?r) = (1 \<le> rate \<and> rate \<le> Second)
        \<and> generator ?r = Spawned
        \<and> (interval ?r \<le> 0 \<longrightarrow>
             generator (generateTokens_start ?r) = Panicked NonPositiveTickerInterval)
        \<and> (0 < interval ?r \<longrightarrow> generator (generateTokens_start ?r) = Ticking)"
    using pos by (auto simp: generateTokens_start_def)
  with new False show ?thesis by blast
qed

theorem C7_NewRateLimiter_witness:
  "NewRateLimiter 0 = Inl IntegerDivideByZero
   \<and> (\<exists>r. NewRateLimiter 10 = Inr r \<and> interval r = 100000000
        \<and> generator (generateTokens_start r) = Ticking)
   \<and> (\<exists>r. NewRateLimiter 2000000000 = Inr r \<and> interval r = 0
        \<and> generator (generateTokens_start r) = Panicked NonPositiveTickerInterval)"
  using C7_NewRateLimiter_interval [of 0] C7_NewRateLimiter_interval [of 10]
    C7_NewRateLimiter_interval [of 2000000000]
  by (auto simp: quo_def Second_def)

text \<open>
  The claim as the specification words it fails at rate \<open>-1\<close>: the constructor returns,
  and the limiter it returns has the interval of minus one second.
\<close>

theorem C7_NewRateLimiter_negative_rate_counterexample:
  "NewRateLimiter (- 1) =
     Inr \<lparr>interval = - 1000000000, tokens = \<lparr>cap = 1, len = 0, sendq = 0, recvq = 0\<rparr>,
          ctx_done = False, generator = Spawned\<rparr>"
  by (simp add: NewRateLimiter_def makechan_def quo_def Second_def)

subsection \<open>RateLimiter token buffer\<close>

lemma chan_inv_chansend: "chan_inv c \<Longrightarrow> chan_inv (snd (chansend b c))"
  by (auto simp: chan_inv_def chansend_def)

lemma chan_inv_chanrecv: "chan_inv c \<Longrightarrow> chan_inv (snd (chanrecv b c))"
  by (auto simp: chan_inv_def chanrecv_def)

lemma cap_chansend [simp]: "cap (snd (chansend b c)) = cap c"
  by (simp add: chansend_def)

lemma cap_chanrecv [simp]: "cap (snd (chanrecv b c)) = cap c"
  by (simp add: chanrecv_def)

lemma limiter_step_inv:
  assumes "chan_inv (tokens r)"
  shows "chan_inv (tokens (limiter_step r ev)) \<and> cap (tokens (limiter_step r ev)) = cap (tokens r)"
proof (cases ev)
  case GeneratorStart
  then show ?thesis using assms by (simp add: generateTokens_start_def)
next
  case Tick
  then show ?thesis
    using assms chan_inv_chansend [OF assms, of False]
    by (simp add: generateTokens_tick_def split_beta)
next
  case GeneratorDone
  then show ?thesis using assms by (simp add: generateTokens_done_def)
next
  case CallWait
  then show ?thesis
    using chan_inv_chanrecv [OF assms, of True]
    by (simp add: Wait_def split_beta)
next
  case CallTryWait
  then show ?thesis
    using assms chan_inv_chanrecv [OF assms, of False]
    by (simp add: TryWait_def split_beta)
next
  case CallClose
  then show ?thesis using assms by (simp add: Close_def)
qed

lemma limiter_run_inv:
  "chan_inv (tokens r) \<Longrightarrow>
   chan_inv (tokens (limiter_run r evs)) \<and> cap (tokens (limiter_run r evs)) = cap (tokens r)"
proof (induction evs arbitrary: r)
  case Nil
  then show ?case by (simp add: limiter_run_def)
next
  case (Cons ev evs)
  from limiter_step_inv [OF Cons.prems, of ev]
  have "chan_inv (tokens (limiter_step r ev))"
    and c: "cap (tokens (limiter_step r ev)) = cap (tokens r)" by simp_all
  from Cons.IH [OF this(1)] c show ?case
    by (simp add: limiter_run_def)
qed

lemma tick_on_full:
  "chan_inv (tokens r) \<Longrightarrow> len (tokens r) = cap (tokens r) \<Longrightarrow> 0 < cap (tokens r) \<Longrightarrow>
   generateTokens_tick r = r"
  by (auto simp: generateTokens_tick_def chansend_def chan_inv_def)

text \<open>
  Claim C8. The token buffer of a rate limiter never holds more than one token, whatever
  the generator and the callers do; a tick that finds a token in the buffer leaves the
  limiter as it is; the buffer is empty at construction, and \<open>TryWait\<close> on the limiter
  just constructed returns false and takes nothing.
\<close>

theorem C8_RateLimiter_single_token:
  assumes "NewRateLimiter rate = Inr r0"
  shows "buffered r0 = 0 \<and> TryWait r0 = (False, r0)
         \<and> 0 \<le> buffered (limiter_run r0 evs) \<and> buffered (limiter_run r0 evs) \<le> 1
         \<and> (buffered (limiter_run r0 evs) = 1 \<longrightarrow>
              limiter_step (limiter_run r0 evs) Tick = limiter_run r0 evs)"
proof -
  from assms have r0: "tokens r0 = \<lparr>cap = 1, len = 0, sendq = 0, recvq = 0\<rparr>"
    by (auto simp: NewRateLimiter_def makechan_def split: if_splits)
  then have inv0: "chan_inv (tokens r0)" and cap0: "cap (tokens r0) = 1"
    by (simp_all add: chan_inv_def)
  let ?r = "limiter_run r0 evs"
  from limiter_run_inv [OF inv0, of evs] cap0
  have inv: "chan_inv (tokens ?r)" and cap: "cap (tokens ?r) = 1" by simp_all
  have "buffered r0 = 0" using r0 by (simp add: buffered_def)
  moreover have "TryWait r0 = (False, r0)"
    using r0 by (simp add: TryWait_def chanrecv_def)
  moreover have "0 \<le> buffered ?r \<and> buffered ?r \<le> 1"
    using inv cap by (simp add: chan_inv_def buffered_def)
  moreover have "buffered ?r = 1 \<longrightarrow> limiter_step ?r Tick = ?r"
    using tick_on_full [OF inv] cap by (simp add: buffered_def)
  ultimately show ?thesis by simp
qed

theorem C8_RateLimiter_witness:
  "NewRateLimiter 10 =
     Inr \<lparr>interval = 100000000, tokens = \<lparr>cap = 1, len = 0, sendq = 0, recvq = 0\<rparr>,
          ctx_done = False, generator = Spawned\<rparr>
   \<and> buffered (limiter_run
        \<lparr>interval = 100000000, tokens = \<lparr>cap = 1, len = 0, sendq = 0, recvq = 0\<rparr>,
         ctx_done = False, generator = Spawned\<rparr> [GeneratorStart, Tick, Tick]) = 1
   \<and> limiter_step (limiter_run
        \<lparr>interval = 100000000, tokens = \<lparr>cap = 1, len = 0, sendq = 0, recvq = 0\<rparr>,
         ctx_done = False, generator = Spawned\<rparr> [GeneratorStart, Tick, Tick]) Tick
       = \<lparr>interval = 100000000, tokens = \<lparr>cap = 1, len = 1, sendq = 0, recvq = 0\<rparr>,
          ctx_done = False, generator = Ticking\<rparr>"
proof -
  let ?r0 = "\<lparr>interval = 100000000, tokens = \<lparr>cap = 1, len = 0, sendq = 0, recvq = 0\<rparr>,
              ctx_done = False, generator = Spawned\<rparr>"
  have new: "NewRateLimiter 10 = Inr ?r0"
    by (simp add: NewRateLimiter_def makechan_def quo_def Second_def)
  have run: "limiter_run ?r0 [GeneratorStart, Tick, Tick]
             = \<lparr>interval = 100000000, tokens = \<lparr>cap = 1, len = 1, sendq = 0, recvq = 0\<rparr>,
                ctx_done = False, generator = Ticking\<rparr>"
    by (simp add: limiter_run_def generateTokens_start_def generateTokens_tick_def chansend_def)
  from C8_RateLimiter_single_token [OF new, of "[GeneratorStart, Tick, Tick]"] new run
  show ?thesis by (simp add: buffered_def)
qed

subsection \<open>Parallelizer: the invariant of a run\<close>

lemma run_task_recorded:
  "recorded t \<Longrightarrow> run_task k t rs = (rs[k := result_of_task k t], Returning)"
  by (cases t rule: recorded.cases) (simp_all add: run_task_def)

lemma run_task_not_recorded:
  "\<not> recorded t \<Longrightarrow>
   run_task k t rs = (rs, if t = CallGoexits then Goexiting else Returning)"
  by (cases t rule: recorded.cases) (simp_all add: run_task_def)

lemma result_of_task_not_recorded:
  "\<not> recorded t \<Longrightarrow> result_of_task k t = \<lparr>Value = None, Error = None, Index = 0\<rparr>"
  by (cases t rule: recorded.cases) simp_all

text \<open>
  On an element that still holds the zero value, the call of the task and the deferred
  function leave \<open>result_of_task\<close>, and no panic in flight.
\<close>

lemma run_task_eq:
  assumes "k < length rs" and "rs ! k = \<lparr>Value = None, Error = None, Index = 0\<rparr>"
  shows "fst (run_task k t rs) = rs[k := result_of_task k t]"
    and "(case snd (run_task k t rs) of Panicking pv \<Rightarrow> Some pv | _ \<Rightarrow> None) = None"
proof -
  show "fst (run_task k t rs) = rs[k := result_of_task k t]"
  proof (cases "recorded t")
    case True
    then show ?thesis by (simp add: run_task_recorded)
  next
    case False
    have "rs[k := rs ! k] = rs" by simp
    with assms have "rs[k := result_of_task k t] = rs"
      by (simp add: result_of_task_not_recorded [OF False])
    with False show ?thesis by (simp add: run_task_not_recorded)
  qed
  show "(case snd (run_task k t rs) of Panicking pv \<Rightarrow> Some pv | _ \<Rightarrow> None) = None"
    by (cases "recorded t") (simp_all add: run_task_recorded run_task_not_recorded)
qed

lemma unit_run_eq:
  assumes inv: "run_inv p tasks s" and ku: "k < length (units s)" and c: "units s ! k = InTask"
  shows "unit_run tasks k s =
         release k ReturnedAtEnd (s\<lparr>results := (results s)[k := result_of_task k (tasks ! k)]\<rparr>)"
proof -
  from inv ku have k: "k < length tasks" and kr: "k < length (results s)"
    and cr: "crashed s = None"
    by (auto simp: run_inv_def)
  from inv k c have z: "results s ! k = \<lparr>Value = None, Error = None, Index = 0\<rparr>"
    by (auto simp: run_inv_def populated_def)
  have cs: "s\<lparr>results := rs, crashed := None\<rparr> = s\<lparr>results := rs\<rparr>" for rs
    using cr by (cases s) simp
  from ku k c show ?thesis
    by (simp add: unit_run_def split_beta run_task_eq [OF kr z] cs)
qed

lemma count_update:
  "k < length xs \<Longrightarrow>
   int (length (filter P (xs[k := y]))) =
     int (length (filter P xs)) - (if P (xs ! k) then 1 else 0) + (if P y then 1 else 0)"
proof (induction xs arbitrary: k)
  case Nil
  then show ?case by simp
next
  case (Cons a xs)
  show ?case
  proof (cases k)
    case 0
    then show ?thesis by simp
  next
    case (Suc n)
    with Cons.prems have "n < length xs" by simp
    from Cons.IH [OF this] Suc show ?thesis by (auto split: if_splits)
  qed
qed

lemma count_active_pos:
  "k < length us \<Longrightarrow> is_active (us ! k) \<Longrightarrow> 0 < length (filter is_active us)"
  by (metis filter_empty_conv length_greater_0_conv nth_mem)

lemma count_active_zero:
  "length (filter is_active us) = 0 \<Longrightarrow> k < length us \<Longrightarrow> \<not> is_active (us ! k)"
  using count_active_pos by fastforce

lemma run_inv_init:
  "makechan (MaxGoroutines p) = Inr c \<Longrightarrow> run_inv p tasks (init_state tasks c)"
  by (auto simp: run_inv_def init_state_def makechan_def active_def populated_def is_active_def
      split: if_splits)

lemma run_inv_context_done: "run_inv p tasks s \<Longrightarrow> run_inv p tasks (context_done p ctx e s)"
proof (cases "ctxWithTO s = None \<and> (ctx \<noteq> Background \<or> (0 < Timeout p \<and> e = DeadlineExceeded))")
  case True
  assume "run_inv p tasks s"
  then have "run_inv p tasks (s\<lparr>ctxWithTO := Some e\<rparr>)"
    by (auto simp: run_inv_def active_def)
  with True show ?thesis by (simp add: context_done_def)
next
  case False
  assume "run_inv p tasks s"
  with False show ?thesis by (auto simp: context_done_def)
qed

lemma run_inv_main_step:
  assumes "run_inv p tasks s"
  shows "run_inv p tasks (main_step tasks s)"
proof (cases "main s")
  case AtLoopHead
  show ?thesis
  proof (cases "loop_i s < length tasks")
    case True
    with AtLoopHead assms show ?thesis
      by (auto simp: run_inv_def main_step_def chansend_def active_def)
  next
    case False
    with AtLoopHead assms show ?thesis
      by (auto simp: run_inv_def main_step_def active_def)
  qed
next
  case ParkedOnSend
  with assms show ?thesis by (simp add: main_step_def)
next
  case AtGo
  with assms have i: "loop_i s < length (units s)" and ns: "units s ! loop_i s = NotStarted"
    by (auto simp: run_inv_def)
  have cnt: "int (length (filter is_active ((units s)[loop_i s := AtCheck]))) =
             int (length (filter is_active (units s))) + 1"
    using count_update [OF i, of is_active AtCheck] ns
    by (simp add: is_active_def)
  from AtGo assms show ?thesis
    unfolding main_step_def run_inv_def
    by (auto simp: active_def cnt nth_list_update populated_def)
next
  case AtWait
  with assms show ?thesis
    by (auto simp: run_inv_def main_step_def active_def)
next
  case MainReturned
  with assms show ?thesis by (simp add: main_step_def)
qed

lemma run_inv_release:
  assumes inv: "run_inv p tasks s" and k: "k < length tasks"
    and act: "is_active (units s ! k)"
    and pc: "pc = ReturnedAtEnd \<or> pc = ReturnedCancelled"
    and pop: "populated k (tasks ! k) pc r"
  shows "run_inv p tasks (release k pc (s\<lparr>results := (results s)[k := r]\<rparr>))"
proof -
  let ?s = "s\<lparr>results := (results s)[k := r]\<rparr>"
  from inv k have ku: "k < length (units s)" and kr: "k < length (results s)"
    by (simp_all add: run_inv_def)
  from pc have npc: "\<not> is_active pc" by (auto simp: is_active_def)
  have cnt: "int (length (filter is_active ((units s)[k := pc]))) = active s - 1"
    using count_update [OF ku, of is_active pc] act npc by (simp add: active_def)
  have pos: "0 < active s"
    using count_active_pos [OF ku act] by (simp add: active_def)
  from inv pos have nret: "main s \<noteq> MainReturned" by (auto simp: run_inv_def)
  from act have nst: "units s ! k \<noteq> NotStarted" by (auto simp: is_active_def)
  show ?thesis
  proof (cases "0 < sendq (run_sem s)")
    case True
    with inv have parked: "main s = ParkedOnSend"
      by (auto simp: run_inv_def split: if_splits)
    have rel: "release k pc ?s =
        s\<lparr>results := (results s)[k := r],
           run_sem := (run_sem s)\<lparr>sendq := sendq (run_sem s) - 1\<rparr>, wg := wg s - 1,
           main := AtGo, units := (units s)[k := pc]\<rparr>"
      using True by (simp add: release_def chanrecv_def)
    from inv k kr parked pc pop nst show ?thesis
      unfolding rel run_inv_def
      by (auto simp: active_def cnt nth_list_update)
  next
    case False
    with inv have nparked: "main s \<noteq> ParkedOnSend"
      by (auto simp: run_inv_def split: if_splits)
    from inv pos have lenpos: "0 < len (run_sem s)"
      by (auto simp: run_inv_def)
    have rel: "release k pc ?s =
        s\<lparr>results := (results s)[k := r],
           run_sem := (run_sem s)\<lparr>len := len (run_sem s) - 1\<rparr>, wg := wg s - 1,
           main := main s, units := (units s)[k := pc]\<rparr>"
      using False lenpos by (simp add: release_def chanrecv_def)
    from inv k kr nparked nret pc pop nst show ?thesis
      unfolding rel run_inv_def
      by (auto simp: active_def cnt nth_list_update)
  qed
qed

lemma run_inv_unit_check:
  assumes inv: "run_inv p tasks s"
  shows "run_inv p tasks (unit_check k s)"
proof (cases "k < length (units s) \<and> units s ! k = AtCheck")
  case False
  then show ?thesis using inv by (auto simp: unit_check_def)
next
  case True
  with inv have k: "k < length tasks" and ku: "k < length (units s)"
    and act: "is_active (units s ! k)" and kr: "k < length (results s)"
    by (auto simp: run_inv_def is_active_def)
  show ?thesis
  proof (cases "ctxWithTO s")
    case None
    have cnt: "int (length (filter is_active ((units s)[k := InTask]))) = active s"
      using count_update [OF ku, of is_active InTask] act by (simp add: active_def is_active_def)
    from inv True None show ?thesis
      unfolding unit_check_def run_inv_def
      by (auto simp: active_def cnt nth_list_update populated_def)
  next
    case (Some e)
    let ?r = "\<lparr>Value = None, Error = Some (ContextError e), Index = int k\<rparr>
                :: ('a, 'b, 'c) TaskResult"
    let ?s = "s\<lparr>results := (results s)[k := ?r]\<rparr>"
    have "populated k (tasks ! k) ReturnedCancelled ?r"
      by (auto simp: populated_def result_cancelled_def)
    then have "run_inv p tasks (release k ReturnedCancelled ?s)"
      using run_inv_release [OF inv k act] by blast
    with True Some show ?thesis by (simp add: unit_check_def)
  qed
qed

lemma run_inv_unit_run:
  assumes inv: "run_inv p tasks s"
  shows "run_inv p tasks (unit_run tasks k s)"
proof (cases "k < length (units s) \<and> k < length tasks \<and> units s ! k = InTask")
  case False
  then show ?thesis using inv by (auto simp: unit_run_def)
next
  case True
  with inv have k: "k < length tasks" and act: "is_active (units s ! k)"
    by (auto simp: run_inv_def is_active_def)
  let ?s = "s\<lparr>results := (results s)[k := result_of_task k (tasks ! k)]\<rparr>"
  from True have eq: "unit_run tasks k s = release k ReturnedAtEnd ?s"
    using unit_run_eq [OF inv] by simp
  have "populated k (tasks ! k) ReturnedAtEnd (result_of_task k (tasks ! k))"
    by (simp add: populated_def)
  then have "run_inv p tasks (release k ReturnedAtEnd ?s)"
    using run_inv_release [OF inv k act] by blast
  with eq show ?thesis by simp
qed

lemma run_inv_step: "run_inv p tasks s \<Longrightarrow> run_inv p tasks (step p ctx tasks s ev)"
  by (cases ev)
     (simp_all add: run_inv_main_step run_inv_unit_check run_inv_unit_run run_inv_context_done)

lemma run_inv_foldl:
  "run_inv p tasks s \<Longrightarrow> run_inv p tasks (foldl (step p ctx tasks) s sched)"
proof (induction sched arbitrary: s)
  case Nil
  then show ?case by simp
next
  case (Cons ev sched)
  from Cons.IH [OF run_inv_step [OF Cons.prems]] show ?case by simp
qed

lemma execution_inv: "execution p ctx tasks sched = Inr s \<Longrightarrow> run_inv p tasks s"
  using run_inv_foldl [OF run_inv_init]
  by (auto simp: execution_def split: sum.splits)

text \<open>When the calling goroutine has returned, every goroutine has left and stored its result.\<close>

lemma run_inv_returned:
  assumes inv: "run_inv p tasks s" and ret: "main s = MainReturned" and k: "k < length tasks"
  shows "(units s ! k = ReturnedAtEnd \<and> results s ! k = result_of_task k (tasks ! k))
         \<or> (units s ! k = ReturnedCancelled \<and> (\<exists>e. results s ! k = result_cancelled k e))"
proof -
  from inv ret have z: "length (filter is_active (units s)) = 0"
    by (simp add: run_inv_def active_def)
  from inv k have ku: "k < length (units s)" by (simp add: run_inv_def)
  from count_active_zero [OF z ku] have "units s ! k \<noteq> AtCheck" "units s ! k \<noteq> InTask"
    by (auto simp: is_active_def)
  moreover from inv ret k have "units s ! k \<noteq> NotStarted" "units s ! k \<noteq> ParkedOnReceive"
    by (auto simp: run_inv_def)
  ultimately have "units s ! k = ReturnedAtEnd \<or> units s ! k = ReturnedCancelled"
    by (cases "units s ! k") simp_all
  moreover from inv k have "populated k (tasks ! k) (units s ! k) (results s ! k)"
    by (simp add: run_inv_def)
  ultimately show ?thesis by (auto simp: populated_def)
qed

subsection \<open>Parallelizer: every run can finish\<close>

lemma sum_rank_update:
  "k < length us \<Longrightarrow>
   sum_list (map unit_rank (us[k := u])) + unit_rank (us ! k) =
     sum_list (map unit_rank us) + unit_rank u"
proof (induction us arbitrary: k)
  case Nil
  then show ?case by simp
next
  case (Cons a us)
  show ?case
  proof (cases k)
    case 0
    then show ?thesis by simp
  next
    case (Suc n)
    with Cons.prems have "n < length us" by simp
    from Cons.IH [OF this] Suc show ?thesis by simp
  qed
qed

lemma release_received:
  assumes inv: "run_inv p tasks s" and k: "k < length tasks" and act: "is_active (units s ! k)"
  shows "units (release k pc (s\<lparr>results := rs\<rparr>)) = (units s)[k := pc]
         \<and> ctxWithTO (release k pc (s\<lparr>results := rs\<rparr>)) = ctxWithTO s
         \<and> main_rank (main (release k pc (s\<lparr>results := rs\<rparr>))) \<le> main_rank (main s)"
proof -
  from inv k have ku: "k < length (units s)" by (simp add: run_inv_def)
  have pos: "0 < active s"
    using count_active_pos [OF ku act] by (simp add: active_def)
  with inv have "0 < sendq (run_sem s) \<or> 0 < len (run_sem s)"
    by (auto simp: run_inv_def)
  moreover from inv have "0 < sendq (run_sem s) \<Longrightarrow> main s = ParkedOnSend"
    by (auto simp: run_inv_def split: if_splits)
  ultimately show ?thesis
    by (auto simp: release_def chanrecv_def)
qed

lemma steps_left_unit:
  assumes ku: "k < length (units s)" and u: "units s' = (units s)[k := u]"
    and r: "unit_rank u < unit_rank (units s ! k)"
    and c: "ctxWithTO s' = ctxWithTO s" and m: "main_rank (main s') \<le> main_rank (main s)"
  shows "steps_left s' < steps_left s"
  using sum_rank_update [OF ku, of u] r c m
  by (simp add: steps_left_def u)

lemma steps_left_unit_check:
  assumes inv: "run_inv p tasks s"
  shows "unit_check k s = s \<or> steps_left (unit_check k s) < steps_left s"
proof (cases "k < length (units s) \<and> units s ! k = AtCheck")
  case False
  then show ?thesis by (auto simp: unit_check_def)
next
  case True
  with inv have k: "k < length tasks" and ku: "k < length (units s)"
    and act: "is_active (units s ! k)"
    by (auto simp: run_inv_def is_active_def)
  show ?thesis
  proof (cases "ctxWithTO s")
    case None
    with True have "unit_check k s = s\<lparr>units := (units s)[k := InTask]\<rparr>"
      by (simp add: unit_check_def)
    then have "steps_left (unit_check k s) < steps_left s"
      using steps_left_unit [OF ku, of "unit_check k s" InTask] True by simp
    then show ?thesis ..
  next
    case (Some e)
    let ?s = "s\<lparr>results := (results s)
                 [k := \<lparr>Value = None, Error = Some (ContextError e), Index = int k\<rparr>]\<rparr>"
    from True Some have eq: "unit_check k s = release k ReturnedCancelled ?s"
      by (simp add: unit_check_def)
    from release_received [OF inv k act, of ReturnedCancelled]
    have "steps_left (release k ReturnedCancelled ?s) < steps_left ?s"
      using steps_left_unit [of k ?s "release k ReturnedCancelled ?s" ReturnedCancelled] ku True
      by simp
    moreover have "steps_left ?s = steps_left s" by (simp add: steps_left_def)
    ultimately show ?thesis using eq by simp
  qed
qed

lemma steps_left_unit_run:
  assumes inv: "run_inv p tasks s"
  shows "unit_run tasks k s = s \<or> steps_left (unit_run tasks k s) < steps_left s"
proof (cases "k < length (units s) \<and> k < length tasks \<and> units s ! k = InTask")
  case False
  then show ?thesis by (auto simp: unit_run_def)
next
  case True
  with inv have k: "k < length tasks" and ku: "k < length (units s)"
    and act: "is_active (units s ! k)"
    by (auto simp: run_inv_def is_active_def)
  let ?s = "s\<lparr>results := (results s)[k := result_of_task k (tasks ! k)]\<rparr>"
  from True have eq: "unit_run tasks k s = release k ReturnedAtEnd ?s"
    using unit_run_eq [OF inv] by simp
  from release_received [OF inv k act, of ReturnedAtEnd]
  have "steps_left (release k ReturnedAtEnd ?s) < steps_left ?s"
    using steps_left_unit [of k ?s "release k ReturnedAtEnd ?s" ReturnedAtEnd] ku True
    by simp
  moreover have "steps_left ?s = steps_left s" by (simp add: steps_left_def)
  ultimately show ?thesis using eq by simp
qed

lemma steps_left_main_step:
  assumes inv: "run_inv p tasks s"
  shows "main_step tasks s = s \<or> steps_left (main_step tasks s) < steps_left s"
proof (cases "main s")
  case AtLoopHead
  then show ?thesis
    by (auto simp: main_step_def steps_left_def chansend_def)
next
  case ParkedOnSend
  then show ?thesis by (simp add: main_step_def)
next
  case AtGo
  with inv have i: "loop_i s < length (units s)" and ns: "units s ! loop_i s = NotStarted"
    by (auto simp: run_inv_def)
  from sum_rank_update [OF i, of AtCheck] ns AtGo show ?thesis
    by (simp add: main_step_def steps_left_def)
next
  case AtWait
  then show ?thesis by (auto simp: main_step_def steps_left_def)
next
  case MainReturned
  then show ?thesis by (simp add: main_step_def)
qed

lemma steps_left_step:
  assumes "run_inv p tasks s"
  shows "step p ctx tasks s ev = s \<or> steps_left (step p ctx tasks s ev) < steps_left s"
proof (cases ev)
  case MainStep
  then show ?thesis using steps_left_main_step [OF assms] by simp
next
  case (UnitCheck k)
  then show ?thesis using steps_left_unit_check [OF assms, of k] by simp
next
  case (UnitRun k)
  then show ?thesis using steps_left_unit_run [OF assms, of k] by simp
next
  case (ContextDone e)
  then show ?thesis by (auto simp: context_done_def steps_left_def)
qed

lemma unit_check_moves:
  assumes inv: "run_inv p tasks s" and ku: "k < length (units s)" and c: "units s ! k = AtCheck"
  shows "units (unit_check k s) ! k \<noteq> AtCheck"
proof (cases "ctxWithTO s")
  case None
  with c ku show ?thesis by (simp add: unit_check_def)
next
  case (Some e)
  from inv ku have k: "k < length tasks" by (simp add: run_inv_def)
  from c have act: "is_active (units s ! k)" by (simp add: is_active_def)
  let ?s = "s\<lparr>results := (results s)
               [k := \<lparr>Value = None, Error = Some (ContextError e), Index = int k\<rparr>]\<rparr>"
  from c ku Some have eq: "unit_check k s = release k ReturnedCancelled ?s"
    by (simp add: unit_check_def)
  from release_received [OF inv k act, of ReturnedCancelled]
  have "units (release k ReturnedCancelled ?s) = (units s)[k := ReturnedCancelled]" by simp
  with eq ku show ?thesis by simp
qed

lemma unit_run_moves:
  assumes inv: "run_inv p tasks s" and ku: "k < length (units s)" and c: "units s ! k = InTask"
  shows "units (unit_run tasks k s) ! k \<noteq> InTask"
proof -
  from inv ku have k: "k < length tasks"
    by (simp_all add: run_inv_def)
  from c have act: "is_active (units s ! k)" by (simp add: is_active_def)
  let ?s = "s\<lparr>results := (results s)[k := result_of_task k (tasks ! k)]\<rparr>"
  have eq: "unit_run tasks k s = release k ReturnedAtEnd ?s"
    using unit_run_eq [OF inv ku c] .
  from release_received [OF inv k act, of ReturnedAtEnd]
  have "units (release k ReturnedAtEnd ?s) = (units s)[k := ReturnedAtEnd]" by simp
  with eq ku show ?thesis by simp
qed

text \<open>
  With a positive \<open>MaxGoroutines\<close>, or with no task at all, a run that has not returned
  has a step to take.
\<close>

lemma run_progress:
  assumes inv: "run_inv p tasks s" and max: "0 < MaxGoroutines p \<or> tasks = []"
    and nret: "main s \<noteq> MainReturned"
  shows "\<exists>ev. step p ctx tasks s ev \<noteq> s"
proof (cases "\<exists>k<length tasks. is_active (units s ! k)")
  case True
  then obtain k where k: "k < length tasks" and act: "is_active (units s ! k)" by blast
  from inv k have ku: "k < length (units s)" and cr: "crashed s = None"
    by (simp_all add: run_inv_def)
  show ?thesis
  proof (cases "units s ! k = AtCheck")
    case c: True
    from unit_check_moves [OF inv ku c] c have "unit_check k s \<noteq> s" by auto
    with cr have "step p ctx tasks s (UnitCheck k) \<noteq> s" by simp
    then show ?thesis ..
  next
    case False
    with act have c: "units s ! k = InTask" by (simp add: is_active_def)
    from unit_run_moves [OF inv ku c] c have "unit_run tasks k s \<noteq> s" by auto
    with cr have "step p ctx tasks s (UnitRun k) \<noteq> s" by simp
    then show ?thesis ..
  qed
next
  case False
  from inv have lu: "length (units s) = length tasks" by (simp add: run_inv_def)
  have "\<forall>u \<in> set (units s). \<not> is_active u"
  proof
    fix u assume "u \<in> set (units s)"
    then obtain k where "k < length (units s)" and "units s ! k = u"
      by (auto simp: in_set_conv_nth)
    with False lu show "\<not> is_active u" by auto
  qed
  then have "filter is_active (units s) = []" by (simp add: filter_empty_conv)
  then have z: "active s = 0" by (simp add: active_def)
  from inv have cr: "crashed s = None" by (simp add: run_inv_def)
  have "main (main_step tasks s) \<noteq> main s"
  proof (cases "main s")
    case AtLoopHead
    then show ?thesis by (simp add: main_step_def chansend_def)
  next
    case ParkedOnSend
    from inv have "main s = ParkedOnSend \<longrightarrow> cap (run_sem s) \<le> len (run_sem s)"
      and "cap (run_sem s) = MaxGoroutines p"
      and "len (run_sem s) = active s + (if main s = AtGo then 1 else 0)"
      and "main s = ParkedOnSend \<longrightarrow> loop_i s < length tasks"
      by (auto simp: run_inv_def)
    with ParkedOnSend z max show ?thesis by auto
  next
    case AtGo
    then show ?thesis by (simp add: main_step_def)
  next
    case AtWait
    from inv have "wg s = active s + (if main s = ParkedOnSend \<or> main s = AtGo then 1 else 0)"
      by (auto simp: run_inv_def)
    with AtWait z show ?thesis by (simp add: main_step_def)
  next
    case MainReturned
    with nret show ?thesis by simp
  qed
  then have "main_step tasks s \<noteq> s" by auto
  with cr have "step p ctx tasks s MainStep \<noteq> s" by simp
  then show ?thesis ..
qed

lemma run_can_finish:
  assumes "run_inv p tasks s" and "0 < MaxGoroutines p \<or> tasks = []"
  shows "\<exists>sched. main (foldl (step p ctx tasks) s sched) = MainReturned"
  using assms
proof (induction "steps_left s" arbitrary: s rule: less_induct)
  case less
  show ?case
  proof (cases "main s = MainReturned")
    case True
    then have "main (foldl (step p ctx tasks) s []) = MainReturned" by simp
    then show ?thesis by blast
  next
    case False
    from run_progress [OF less.prems False] obtain ev where ev: "step p ctx tasks s ev \<noteq> s"
      by blast
    with steps_left_step [OF less.prems(1), of ctx ev]
    have "steps_left (step p ctx tasks s ev) < steps_left s" by simp
    from less.hyps [OF this run_inv_step [OF less.prems(1)] less.prems(2)]
    obtain sched where "main (foldl (step p ctx tasks) (step p ctx tasks s ev) sched) = MainReturned"
      by blast
    then have "main (foldl (step p ctx tasks) s (ev # sched)) = MainReturned" by simp
    then show ?thesis by blast
  qed
qed

text \<open>
  Without a positive \<open>MaxGoroutines\<close> the call does not return the results of its
  tasks: a negative one makes \<open>make(chan struct{}, p.MaxGoroutines)\<close> panic, and with
  \<open>0\<close> the channel is unbuffered, so the first send finds no receiver and the caller
  stays parked.
\<close>

lemma RunWithContext_negative_panics:
  "MaxGoroutines p < 0 \<Longrightarrow>
   RunWithContext p ctx tasks sched = Inl (RuntimeError MakechanSizeOutOfRange)"
  by (simp add: RunWithContext_def execution_def makechan_def)

lemma stuck_step:
  assumes "stuck_at_first_send s" and "tasks \<noteq> []"
  shows "stuck_at_first_send (step p ctx tasks s ev)"
proof (cases "crashed s \<noteq> None")
  case True
  with assms show ?thesis by simp
next
  case False
  show ?thesis
  proof (cases ev)
    case MainStep
    with assms False show ?thesis
      by (auto simp: stuck_at_first_send_def main_step_def chansend_def)
  next
    case (UnitCheck k)
    have "k < length (units s) \<Longrightarrow> units s ! k = NotStarted"
      using assms(1) nth_mem [of k "units s"] by (simp add: stuck_at_first_send_def)
    then have "unit_check k s = s" by (auto simp: unit_check_def)
    with UnitCheck assms False show ?thesis by simp
  next
    case (UnitRun k)
    have "k < length (units s) \<Longrightarrow> units s ! k = NotStarted"
      using assms(1) nth_mem [of k "units s"] by (simp add: stuck_at_first_send_def)
    then have "unit_run tasks k s = s" by (auto simp: unit_run_def)
    with UnitRun assms False show ?thesis by simp
  next
    case (ContextDone e)
    with assms False show ?thesis
      by (auto simp: stuck_at_first_send_def context_done_def)
  qed
qed

lemma stuck_foldl:
  "stuck_at_first_send s \<Longrightarrow> tasks \<noteq> [] \<Longrightarrow>
   stuck_at_first_send (foldl (step p ctx tasks) s sched)"
proof (induction sched arbitrary: s)
  case Nil
  then show ?case by simp
next
  case (Cons ev sched)
  from Cons.IH [OF stuck_step [OF Cons.prems] Cons.prems(2)] show ?case by simp
qed

lemma RunWithContext_zero_blocks:
  assumes "MaxGoroutines p = 0" and "tasks \<noteq> []"
  shows "RunWithContext p ctx tasks sched = Inr Blocked"
proof -
  let ?c = "\<lparr>cap = 0, len = 0, sendq = 0, recvq = 0\<rparr>"
  let ?s = "foldl (step p ctx tasks) (init_state tasks ?c) sched"
  have mk: "makechan (MaxGoroutines p) = Inr ?c" using assms(1) by (simp add: makechan_def)
  then have e: "execution p ctx tasks sched = Inr ?s" by (simp add: execution_def)
  have "stuck_at_first_send (init_state tasks ?c)"
    by (simp add: stuck_at_first_send_def init_state_def)
  from stuck_foldl [OF this assms(2), where p = p and ctx = ctx and sched = sched]
  have "main ?s \<noteq> MainReturned"
    by (auto simp: stuck_at_first_send_def)
  moreover from execution_inv [OF e] have "crashed ?s = None" by (auto simp: run_inv_def)
  ultimately show ?thesis using e by (simp add: RunWithContext_def)
qed

subsection \<open>Parallelizer: results in submission order\<close>

lemma RunWithContext_Returned:
  assumes "RunWithContext p ctx tasks sched = Inr (Returned rs)"
  shows "\<exists>s. execution p ctx tasks sched = Inr s \<and> main s = MainReturned \<and> results s = rs
             \<and> run_inv p tasks s"
proof -
  from assms obtain s where e: "execution p ctx tasks sched = Inr s"
    by (auto simp: RunWithContext_def split: sum.splits)
  with assms have "main s = MainReturned \<and> results s = rs"
    by (auto simp: RunWithContext_def split: option.splits if_splits)
  with e execution_inv [OF e] show ?thesis by blast
qed

text \<open>
  The deferred function ends every panic of a task, whatever its value: no run ends with
  a panic of a task.
\<close>

lemma RunWithContext_never_unrecovered:
  "RunWithContext p ctx tasks sched \<noteq> Inl (Unrecovered pv)"
proof (cases "execution p ctx tasks sched")
  case (Inl cr)
  then show ?thesis
    by (auto simp: RunWithContext_def execution_def split: sum.splits)
next
  case (Inr s)
  from execution_inv [OF Inr] have "crashed s = None" by (auto simp: run_inv_def)
  with Inr show ?thesis by (simp add: RunWithContext_def)
qed

lemma RunWithContext_can_always_return:
  assumes "0 < MaxGoroutines p \<or> (MaxGoroutines p = 0 \<and> tasks = [])"
  shows "\<exists>more rs. RunWithContext p ctx tasks (sched @ more) = Inr (Returned rs)"
proof -
  let ?c = "\<lparr>cap = MaxGoroutines p, len = 0, sendq = 0, recvq = 0\<rparr>"
  let ?s = "foldl (step p ctx tasks) (init_state tasks ?c) sched"
  from assms have mk: "makechan (MaxGoroutines p) = Inr ?c" by (auto simp: makechan_def)
  from assms have max: "0 < MaxGoroutines p \<or> tasks = []" by blast
  have inv: "run_inv p tasks ?s" using run_inv_foldl [OF run_inv_init [OF mk]] .
  from run_can_finish [OF inv max, where ctx = ctx]
  obtain more where ret: "main (foldl (step p ctx tasks) ?s more) = MainReturned" by blast
  let ?t = "foldl (step p ctx tasks) ?s more"
  have e: "execution p ctx tasks (sched @ more) = Inr ?t" using mk by (simp add: execution_def)
  from execution_inv [OF e] have "crashed ?t = None" by (auto simp: run_inv_def)
  with e ret have "RunWithContext p ctx tasks (sched @ more) = Inr (Returned (results ?t))"
    by (simp add: RunWithContext_def)
  then show ?thesis by blast
qed

lemma RunWithContext_can_return:
  assumes "0 < MaxGoroutines p"
  shows "\<exists>sched rs. RunWithContext p ctx tasks sched = Inr (Returned rs)"
proof -
  from assms have "0 < MaxGoroutines p \<or> (MaxGoroutines p = 0 \<and> tasks = [])" by simp
  from RunWithContext_can_always_return [OF this, of ctx "[]"] show ?thesis by auto
qed

text \<open>
  What a returned slice holds at each position: what the call of the task left there,
  or the context's error if the goroutine found the context done and did not call the
  task.
\<close>

lemma Returned_result:
  assumes "RunWithContext p ctx tasks sched = Inr (Returned rs)" and "k < length tasks"
  shows "length rs = length tasks"
    and "(task_was_called p ctx tasks sched k \<and> rs ! k = result_of_task k (tasks ! k))
         \<or> (\<not> task_was_called p ctx tasks sched k \<and> (\<exists>e. rs ! k = result_cancelled k e))"
proof -
  from RunWithContext_Returned [OF assms(1)] obtain s where
    e: "execution p ctx tasks sched = Inr s" and ret: "main s = MainReturned"
    and rs: "results s = rs" and inv: "run_inv p tasks s" by blast
  from inv rs show "length rs = length tasks" by (auto simp: run_inv_def)
  from inv assms(2) have ku: "k < length (units s)" by (auto simp: run_inv_def)
  from run_inv_returned [OF inv ret assms(2)] e rs ku
  show "(task_was_called p ctx tasks sched k \<and> rs ! k = result_of_task k (tasks ! k))
         \<or> (\<not> task_was_called p ctx tasks sched k \<and> (\<exists>e. rs ! k = result_cancelled k e))"
    by (auto simp: task_was_called_def)
qed

lemma Index_result_of_task [simp]: "recorded t \<Longrightarrow> Index (result_of_task k t) = int k"
  by (cases t rule: recorded.cases) simp_all

lemma Index_result_cancelled [simp]: "Index (result_cancelled k e) = int k"
  by (simp add: result_cancelled_def)

lemma Returned_Index:
  assumes "RunWithContext p ctx tasks sched = Inr (Returned rs)" and "i < length tasks"
    and "recorded (tasks ! i) \<or> \<not> task_was_called p ctx tasks sched i"
  shows "Index (rs ! i) = int i"
  using Returned_result(2) [OF assms(1,2)] assms(3) by auto

text \<open>
  Claim C1, as the code has it. Whether \<open>RunWithContext\<close> returns is decided by
  \<open>MaxGoroutines\<close>, on which the constructor puts no condition. With a negative one the
  call panics when it makes its channel, under every schedule. With \<open>0\<close> and at least
  one task the calling goroutine never gets past its first send: the call does not return,
  under any schedule. With a positive one (or \<open>0\<close> and no task) the call does return:
  however far the scheduler has taken a run, for every sequence of tasks and every
  context, the run can go on to its return. Under whatever schedule the call returns, it
  returns as many results as there were tasks, and the result at position \<open>i\<close> carries
  \<open>Index = i\<close> wherever the call of task \<open>i\<close> returned, or panicked with a value that
  \<open>recover()\<close> reports, or was left out because the goroutine found the context done.
  \<open>Run\<close> is \<open>RunWithContext\<close> with the background context.
\<close>

theorem C1_Run_results_indexed_where_stored:
  "(MaxGoroutines p < 0 \<longrightarrow>
      (\<forall>sched. RunWithContext p ctx tasks sched = Inl (RuntimeError MakechanSizeOutOfRange)))
   \<and> (MaxGoroutines p = 0 \<and> tasks \<noteq> [] \<longrightarrow>
      (\<forall>sched. RunWithContext p ctx tasks sched = Inr Blocked))
   \<and> (0 < MaxGoroutines p \<or> (MaxGoroutines p = 0 \<and> tasks = []) \<longrightarrow>
      (\<forall>sched. \<exists>more rs. RunWithContext p ctx tasks (sched @ more) = Inr (Returned rs)))
   \<and> (\<forall>sched rs. RunWithContext p ctx tasks sched = Inr (Returned rs) \<longrightarrow>
          length rs = length tasks
          \<and> (\<forall>i<length tasks.
                recorded (tasks ! i) \<or> \<not> task_was_called p ctx tasks sched i \<longrightarrow>
                Index (rs ! i) = int i))
   \<and> (\<forall>sched. Run p tasks sched = RunWithContext p Background tasks sched)"
proof (intro conjI impI allI)
  fix sched
  assume "MaxGoroutines p < 0"
  then show "RunWithContext p ctx tasks sched = Inl (RuntimeError MakechanSizeOutOfRange)"
    by (rule RunWithContext_negative_panics)
next
  fix sched
  assume "MaxGoroutines p = 0 \<and> tasks \<noteq> []"
  then show "RunWithContext p ctx tasks sched = Inr Blocked"
    using RunWithContext_zero_blocks [of p tasks ctx sched] by simp
next
  fix sched
  assume "0 < MaxGoroutines p \<or> (MaxGoroutines p = 0 \<and> tasks = [])"
  then show "\<exists>more rs. RunWithContext p ctx tasks (sched @ more) = Inr (Returned rs)"
    by (rule RunWithContext_can_always_return)
next
  fix sched rs
  assume "RunWithContext p ctx tasks sched = Inr (Returned rs)"
  then show "length rs = length tasks"
    using RunWithContext_Returned [of p ctx tasks sched rs] by (auto simp: run_inv_def)
next
  fix sched rs i
  assume "RunWithContext p ctx tasks sched = Inr (Returned rs)" and "i < length tasks"
    and "recorded (tasks ! i) \<or> \<not> task_was_called p ctx tasks sched i"
  then show "Index (rs ! i) = int i" by (rule Returned_Index)
next
  fix sched
  show "Run p tasks sched = RunWithContext p Background tasks sched" by (simp add: Run_def)
qed

theorem C1_Run_witness:
  "RunWithContext \<lparr>MaxGoroutines = - 1, Timeout = 0\<rparr> Background
       [CallReturns (Some (7::nat)) (None :: (nat, nat) error option)] []
     = Inl (RuntimeError MakechanSizeOutOfRange)
   \<and> RunWithContext \<lparr>MaxGoroutines = 0, Timeout = 0\<rparr> Background
       [CallReturns (Some (7::nat)) (None :: (nat, nat) error option)] [MainStep, MainStep]
     = Inr Blocked
   \<and> (\<exists>more rs. RunWithContext \<lparr>MaxGoroutines = 1, Timeout = 0\<rparr> Background
          [CallReturns (Some (7::nat)) (None :: (nat, nat) error option),
           CallReturns None (Some (TaskError 3))]
          ([MainStep, UnitRun 0] @ more) = Inr (Returned rs))
   \<and> Run \<lparr>MaxGoroutines = 1, Timeout = 0\<rparr>
        [CallReturns (Some (7::nat)) (None :: (nat, nat) error option),
         CallReturns None (Some (TaskError 3))]
        [MainStep, MainStep, MainStep, UnitCheck 0, UnitRun 0, MainStep, UnitCheck 1, UnitRun 1,
         MainStep, MainStep]
      = Inr (Returned [\<lparr>Value = Some 7, Error = None, Index = 0\<rparr>,
                       \<lparr>Value = None, Error = Some (TaskError 3), Index = 1\<rparr>])
   \<and> length [\<lparr>Value = Some (7::nat), Error = (None :: (nat, nat) error option), Index = 0\<rparr>,
              \<lparr>Value = None, Error = Some (TaskError 3), Index = 1\<rparr>] = 2
   \<and> Index ([\<lparr>Value = Some (7::nat), Error = (None :: (nat, nat) error option), Index = 0\<rparr>,
              \<lparr>Value = None, Error = Some (TaskError 3), Index = 1\<rparr>] ! 1) = 1"
proof -
  let ?p = "\<lparr>MaxGoroutines = 1, Timeout = 0\<rparr>"
  let ?one = "[CallReturns (Some (7::nat)) (None :: (nat, nat) error option)]"
  let ?tasks = "[CallReturns (Some (7::nat)) (None :: (nat, nat) error option),
                 CallReturns None (Some (TaskError 3))]"
  let ?sched = "[MainStep, MainStep, MainStep, UnitCheck 0, UnitRun 0, MainStep, UnitCheck 1,
                 UnitRun 1, MainStep, MainStep]"
  let ?rs = "[\<lparr>Value = Some (7::nat), Error = (None :: (nat, nat) error option), Index = 0\<rparr>,
              \<lparr>Value = None, Error = Some (TaskError 3), Index = 1\<rparr>]"
  have neg: "RunWithContext \<lparr>MaxGoroutines = - 1, Timeout = 0\<rparr> Background ?one []
             = Inl (RuntimeError MakechanSizeOutOfRange)"
    using C1_Run_results_indexed_where_stored
            [of "\<lparr>MaxGoroutines = - 1, Timeout = 0\<rparr>" Background ?one]
    by simp
  have zero: "RunWithContext \<lparr>MaxGoroutines = 0, Timeout = 0\<rparr> Background ?one
                [MainStep, MainStep] = Inr Blocked"
    using C1_Run_results_indexed_where_stored
            [of "\<lparr>MaxGoroutines = 0, Timeout = 0\<rparr>" Background ?one]
    by simp
  have run: "Run ?p ?tasks ?sched = Inr (Returned ?rs)"
    by (simp add: Run_def RunWithContext_def execution_def makechan_def init_state_def
        main_step_def unit_check_def unit_run_def run_task_def release_def
        chansend_def chanrecv_def)
  then have run': "RunWithContext ?p Background ?tasks ?sched = Inr (Returned ?rs)"
    by (simp add: Run_def)
  have "0 < MaxGoroutines ?p \<or> (MaxGoroutines ?p = 0 \<and> ?tasks = [])" by simp
  with C1_Run_results_indexed_where_stored [of ?p Background ?tasks]
  have "\<forall>sched. \<exists>more rs. RunWithContext ?p Background ?tasks (sched @ more)
                = Inr (Returned rs)"
    by blast
  then have live: "\<exists>more rs. RunWithContext ?p Background ?tasks ([MainStep, UnitRun 0] @ more)
                = Inr (Returned rs)"
    by blast
  have rec: "recorded (?tasks ! 1)" by simp
  from C1_Run_results_indexed_where_stored [of ?p Background ?tasks] run'
  have "length ?rs = length ?tasks
        \<and> (\<forall>i<length ?tasks.
              recorded (?tasks ! i) \<or> \<not> task_was_called ?p Background ?tasks ?sched i \<longrightarrow>
              Index (?rs ! i) = int i)"
    by blast
  with rec have "length ?rs = 2 \<and> Index (?rs ! 1) = 1" by simp
  with neg zero live run show ?thesis by simp
qed

text \<open>
  The claim as the specification words it fails in two ways. At a \<open>Parallelizer\<close> made
  with \<open>MaxGoroutines = -1\<close>, \<open>Run\<close> on one task returns no results: it panics. And
  at one made with \<open>MaxGoroutines = 2\<close>, for two tasks of which the second ends its
  goroutine with \<open>runtime.Goexit\<close>, \<open>Run\<close> returns two results of which the one at
  position \<open>1\<close> has \<open>Index = 0\<close>.
\<close>

theorem C1_Run_counterexample:
  "Run \<lparr>MaxGoroutines = - 1, Timeout = 0\<rparr>
       [CallReturns (Some (7::nat)) (None :: (nat, nat) error option)] []
     = Inl (RuntimeError MakechanSizeOutOfRange)
   \<and> Run \<lparr>MaxGoroutines = 2, Timeout = 0\<rparr>
       [CallReturns (Some (7::nat)) (None :: (nat, nat) error option), CallGoexits]
       [MainStep, MainStep, MainStep, MainStep, UnitCheck 0, UnitRun 0, UnitCheck 1, UnitRun 1,
        MainStep, MainStep]
     = Inr (Returned [\<lparr>Value = Some 7, Error = None, Index = 0\<rparr>,
                      \<lparr>Value = None, Error = None, Index = 0\<rparr>])
   \<and> Index ([\<lparr>Value = Some (7::nat), Error = (None :: (nat, nat) error option), Index = 0\<rparr>,
              \<lparr>Value = None, Error = None, Index = 0\<rparr>] ! 1) \<noteq> 1"
  by (simp add: Run_def RunWithContext_def execution_def makechan_def init_state_def
      main_step_def unit_check_def unit_run_def run_task_def release_def
      chansend_def chanrecv_def)

subsection \<open>Parallelizer: a panicking task\<close>

text \<open>
  Let \<open>RunWithContext\<close> return for a batch whose task at position \<open>i\<close> panics when
  called, with a value that \<open>recover()\<close> reports. Then the result at position \<open>i\<close> has a
  \<open>nil\<close> value and an error that is not \<open>nil\<close>: the error made from the panic value
  if the task was called, the context's error if the goroutine found the context done and
  never called it. Every other position holds what the call of its own task left there, or
  the context's error in the same way.
\<close>

lemma panic_with_value_isolated:
  assumes "RunWithContext p ctx tasks sched = Inr (Returned rs)"
    and "i < length tasks" and "tasks ! i = CallPanics (Some pv)"
  shows "Value (rs ! i) = None \<and> Error (rs ! i) \<noteq> None
         \<and> (task_was_called p ctx tasks sched i \<longrightarrow>
              rs ! i = \<lparr>Value = None, Error = Some (PanicError pv), Index = int i\<rparr>)
         \<and> (\<forall>j<length tasks. j \<noteq> i \<longrightarrow>
              (task_was_called p ctx tasks sched j \<and> rs ! j = result_of_task j (tasks ! j))
              \<or> (\<not> task_was_called p ctx tasks sched j \<and> (\<exists>e. rs ! j = result_cancelled j e)))"
proof -
  have r: "result_of_task i (tasks ! i) = \<lparr>Value = None, Error = Some (PanicError pv), Index = int i\<rparr>"
    using assms(3) by simp
  from Returned_result(2) [OF assms(1,2)] r
  have "Value (rs ! i) = None \<and> Error (rs ! i) \<noteq> None
        \<and> (task_was_called p ctx tasks sched i \<longrightarrow>
              rs ! i = \<lparr>Value = None, Error = Some (PanicError pv), Index = int i\<rparr>)"
    by (auto simp: result_cancelled_def)
  moreover have "\<forall>j<length tasks. j \<noteq> i \<longrightarrow>
      (task_was_called p ctx tasks sched j \<and> rs ! j = result_of_task j (tasks ! j))
      \<or> (\<not> task_was_called p ctx tasks sched j \<and> (\<exists>e. rs ! j = result_cancelled j e))"
    using Returned_result(2) [OF assms(1)] by blast
  ultimately show ?thesis by blast
qed

text \<open>
  Claim C2 fails on the code at a task that panics with a value that \<open>recover()\<close>
  reports as \<open>nil\<close> (\<open>panic(nil)\<close> under the rules before Go 1.21). The deferred
  function ends the panic, and the caller and the sibling task are not touched; but its
  test \<open>r != nil\<close> fails, so it stores nothing: the result at the position of the
  panicking task is the zero value that \<open>make\<close> put there, with an error that is
  \<open>nil\<close>. Here the task at position \<open>1\<close> panics so, beside a task that returns \<open>7\<close>.
\<close>

theorem C2_nil_panic_leaves_no_error:
  "RunWithContext \<lparr>MaxGoroutines = 2, Timeout = 0\<rparr> Background
       [CallReturns (Some (7::nat)) (None :: (nat, nat) error option), CallPanics None]
       [MainStep, MainStep, MainStep, MainStep, UnitCheck 1, UnitRun 1, UnitCheck 0, UnitRun 0,
        MainStep, MainStep]
     = Inr (Returned [\<lparr>Value = Some 7, Error = None, Index = 0\<rparr>,
                      \<lparr>Value = None, Error = None, Index = 0\<rparr>])
   \<and> task_was_called \<lparr>MaxGoroutines = 2, Timeout = 0\<rparr> Background
       [CallReturns (Some (7::nat)) (None :: (nat, nat) error option), CallPanics None]
       [MainStep, MainStep, MainStep, MainStep, UnitCheck 1, UnitRun 1, UnitCheck 0, UnitRun 0,
        MainStep, MainStep] 1"
  by (simp add: RunWithContext_def task_was_called_def execution_def makechan_def
      init_state_def main_step_def unit_check_def unit_run_def run_task_def release_def
      chansend_def chanrecv_def)

subsection \<open>Parallelizer: the convenience entry points\<close>

text \<open>
  Claim C9. Under every schedule \<open>RunTasksWithTimeout\<close> does what \<open>Run\<close> does on a
  \<open>Parallelizer\<close> with \<open>MaxGoroutines\<close> the number of tasks and the given timeout, and
  \<open>RunTasksConcurrently\<close> what \<open>Run\<close> does on a \<open>Parallelizer\<close> with the given
  \<open>MaxGoroutines\<close> and timeout \<open>0\<close>.
\<close>

theorem C9_convenience_entry_points:
  "RunTasksWithTimeout timeout tasks sched = spec_RunWithTimeout timeout tasks sched
   \<and> RunTasksConcurrently maxGoroutines tasks sched = spec_RunConcurrently maxGoroutines tasks sched"
  by (simp add: RunTasksWithTimeout_def RunTasksConcurrently_def spec_RunWithTimeout_def
      spec_RunConcurrently_def NewParallelizer_def)

subsection \<open>BatchProcess: the chunks\<close>

declare spec_chunks.simps [simp del]

lemma spec_chunks_Nil [simp]: "spec_chunks m [] = []"
  by (simp add: spec_chunks.simps)

lemma spec_chunks_step:
  "0 < m \<Longrightarrow> xs \<noteq> [] \<Longrightarrow> spec_chunks m xs = take m xs # spec_chunks m (drop m xs)"
  by (subst spec_chunks.simps) simp

lemma concat_spec_chunks: "0 < m \<Longrightarrow> concat (spec_chunks m xs) = xs"
proof (induction m xs rule: spec_chunks.induct)
  case (1 m xs)
  show ?case
  proof (cases "xs = []")
    case True
    then show ?thesis by simp
  next
    case False
    with "1" show ?thesis by (simp add: spec_chunks_step)
  qed
qed

lemma spec_chunks_sizes:
  "0 < m \<Longrightarrow> c \<in> set (spec_chunks m xs) \<Longrightarrow> c \<noteq> [] \<and> length c \<le> m"
proof (induction m xs rule: spec_chunks.induct)
  case (1 m xs)
  show ?case
  proof (cases "xs = []")
    case True
    with "1.prems" show ?thesis by simp
  next
    case False
    with "1" show ?thesis by (auto simp: spec_chunks_step)
  qed
qed

lemma spec_chunks_full:
  "0 < m \<Longrightarrow> Suc k < length (spec_chunks m xs) \<Longrightarrow> length (spec_chunks m xs ! k) = m"
proof (induction m xs arbitrary: k rule: spec_chunks.induct)
  case (1 m xs)
  show ?case
  proof (cases "xs = []")
    case True
    with "1.prems" show ?thesis by simp
  next
    case False
    then have eq: "spec_chunks m xs = take m xs # spec_chunks m (drop m xs)"
      using "1.prems"(1) by (simp add: spec_chunks_step)
    show ?thesis
    proof (cases k)
      case 0
      with "1.prems"(2) eq have "spec_chunks m (drop m xs) \<noteq> []" by auto
      then have "drop m xs \<noteq> []" by auto
      then show ?thesis using 0 eq by simp
    next
      case (Suc j)
      with "1.prems"(2) eq have "Suc j < length (spec_chunks m (drop m xs))" by simp
      from "1.IH" [OF _ "1.prems"(1) this] False "1.prems"(1) Suc eq show ?thesis by simp
    qed
  qed
qed

lemma wrap64_id: "- (2 ^ 63) \<le> x \<Longrightarrow> x < 2 ^ 63 \<Longrightarrow> wrap64 x = x"
  by (simp add: wrap64_def)

text \<open>
  While \<open>len(items) + batchSize - 1\<close> does not overflow, the loop ends and its batches
  are the chunks of the specification.
\<close>

lemma split_batches_in_range:
  assumes b: "0 < batchSize" and r: "int (length items) + batchSize - 1 \<le> MaxInt"
  shows "split_batches items batchSize (int k) acc
         = Some (Inr (acc @ spec_chunks (nat batchSize) (drop k items)))"
proof (induction "length items - k" arbitrary: k acc rule: less_induct)
  case less
  show ?case
  proof (cases "k < length items")
    case False
    then show ?thesis by (subst split_batches.simps) simp
  next
    case True
    let ?n = "int (length items)"
    from True b r have w: "wrap64 (int k + batchSize) = int k + batchSize"
      by (intro wrap64_id) (simp_all add: MaxInt_def)
    have i': "int k + batchSize = int (k + nat batchSize)" using b by simp
    have ne: "drop k items \<noteq> []" using True by simp
    have tk: "take (nat ((if ?n < int k + batchSize then ?n else int k + batchSize) - int k))
                (drop k items) = take (nat batchSize) (drop k items)"
      using True by (auto simp: nat_diff_distrib)
    have "split_batches items batchSize (int k) acc
          = split_batches items batchSize (int (k + nat batchSize))
              (acc @ [take (nat batchSize) (drop k items)])"
      using True b by (subst split_batches.simps) (simp add: w Let_def tk flip: i')
    also have "\<dots> = Some (Inr ((acc @ [take (nat batchSize) (drop k items)])
                  @ spec_chunks (nat batchSize) (drop (k + nat batchSize) items)))"
      using True b by (intro less.hyps) simp
    also have "\<dots> = Some (Inr (acc @ spec_chunks (nat batchSize) (drop k items)))"
      using b ne by (simp add: spec_chunks_step [of "nat batchSize" "drop k items"] add.commute)
    finally show ?thesis .
  qed
qed

subsection \<open>Parallelizer without a deadline\<close>

lemma notin_set_update: "a \<notin> set xs \<Longrightarrow> a \<noteq> v \<Longrightarrow> a \<notin> set (xs[i := v])"
  using set_update_subset_insert [of xs i v] by auto

lemma release_units:
  "units (release k pc s) = (units s)[k := pc] \<or> units (release k pc s) = (units s)[k := ParkedOnReceive]"
  by (simp add: release_def split_beta)

lemma release_ctxWithTO [simp]: "ctxWithTO (release k pc s) = ctxWithTO s"
  by (simp add: release_def split_beta)

text \<open>
  Under the background context and a timeout that is not positive, the derived context
  is never done, and no goroutine leaves through the cancelled branch.
\<close>

lemma no_deadline_step:
  assumes t: "Timeout p \<le> 0" and c: "ctxWithTO s = None"
    and u: "ReturnedCancelled \<notin> set (units s)"
  shows "ctxWithTO (step p Background tasks s ev) = None
         \<and> ReturnedCancelled \<notin> set (units (step p Background tasks s ev))"
proof (cases "crashed s \<noteq> None")
  case True
  with c u show ?thesis by simp
next
  case False
  show ?thesis
  proof (cases ev)
    case MainStep
    with False c u show ?thesis
      by (cases "main s") (auto simp: main_step_def split_beta notin_set_update)
  next
    case (UnitCheck k)
    with False c u show ?thesis
      by (auto simp: unit_check_def notin_set_update)
  next
    case (UnitRun k)
    have "ReturnedCancelled \<notin> set (units (release k ReturnedAtEnd s'))"
      if "units s' = units s" for s' :: "('a, 'b, 'c) run_state"
      using release_units [of k ReturnedAtEnd s'] u that by (auto simp: notin_set_update)
    with UnitRun False c u show ?thesis
      by (auto simp: unit_run_def split_beta)
  next
    case (ContextDone e)
    with False c u t show ?thesis
      by (auto simp: context_done_def)
  qed
qed

lemma no_deadline_foldl:
  "Timeout p \<le> 0 \<Longrightarrow> ctxWithTO s = None \<Longrightarrow> ReturnedCancelled \<notin> set (units s) \<Longrightarrow>
   ReturnedCancelled \<notin> set (units (foldl (step p Background tasks) s sched))"
proof (induction sched arbitrary: s)
  case Nil
  then show ?case by simp
next
  case (Cons ev sched)
  from no_deadline_step [OF Cons.prems, of tasks ev] Cons.IH [OF Cons.prems(1)]
  show ?case by simp
qed

lemma Run_no_deadline_results:
  assumes t: "Timeout p \<le> 0" and ret: "Run p tasks sched = Inr (Returned rs)"
  shows "rs = map (\<lambda>k. result_of_task k (tasks ! k)) [0..<length tasks]"
proof (rule nth_equalityI)
  from ret have ret': "RunWithContext p Background tasks sched = Inr (Returned rs)"
    by (simp add: Run_def)
  from RunWithContext_Returned [OF ret'] obtain s where
    e: "execution p Background tasks sched = Inr s" and m: "main s = MainReturned"
    and rs: "results s = rs" and inv: "run_inv p tasks s" by blast
  from inv rs show len: "length rs = length (map (\<lambda>k. result_of_task k (tasks ! k)) [0..<length tasks])"
    by (auto simp: run_inv_def)
  from e obtain c where s: "s = foldl (step p Background tasks) (init_state tasks c) sched"
    by (auto simp: execution_def split: sum.splits)
  have "ReturnedCancelled \<notin> set (units (init_state tasks c))"
    and "ctxWithTO (init_state tasks c) = None"
    by (simp_all add: init_state_def)
  from no_deadline_foldl [OF t this(2,1)] s
  have nc: "ReturnedCancelled \<notin> set (units s)" by simp
  fix k assume "k < length rs"
  with len have k: "k < length tasks" by simp
  with inv have "k < length (units s)" by (auto simp: run_inv_def)
  with nc have "units s ! k \<noteq> ReturnedCancelled" using nth_mem by fastforce
  with run_inv_returned [OF inv m k] rs k
  show "rs ! k = map (\<lambda>k. result_of_task k (tasks ! k)) [0..<length tasks] ! k"
    by auto
qed

subsection \<open>BatchProcess: the error returned\<close>

lemma wrap64_add_left: "wrap64 (wrap64 x + y) = wrap64 (x + y)"
proof -
  have "(wrap64 x + y + 2 ^ 63) mod 2 ^ 64 = (x + y + 2 ^ 63) mod 2 ^ 64"
    by (simp add: wrap64_def mod_simps algebra_simps)
  then show ?thesis by (simp add: wrap64_def)
qed

lemma first_error_eq: "first_error rs = spec_first_non_nil (map Error rs)"
  by (induction rs) simp_all

lemma Error_batch_task:
  "Error (result_of_task k (batch_task processBatch b)) = chunk_error (processBatch b)"
  by (cases "processBatch b")
     (simp_all add: batch_task_def chunk_error_def split: option.splits)

lemma spec_first_non_nil_None:
  "(spec_first_non_nil es = None) = (\<forall>e \<in> set es. e = None)"
  by (induction es) auto

lemma spec_first_non_nil_Some:
  "spec_first_non_nil es = Some x \<Longrightarrow>
   \<exists>k<length es. es ! k = Some x \<and> (\<forall>j<k. es ! j = None)"
proof (induction es)
  case Nil
  then show ?case by simp
next
  case (Cons e es)
  show ?case
  proof (cases "e = None")
    case False
    with Cons.prems have "(e # es) ! 0 = Some x \<and> (\<forall>j<0. (e # es) ! j = None)" by simp
    then show ?thesis by blast
  next
    case True
    with Cons obtain k where k: "k < length es" "es ! k = Some x" "\<forall>j<k. es ! j = None"
      by auto
    have "\<forall>j<Suc k. (e # es) ! j = None"
    proof (intro allI impI)
      fix j assume "j < Suc k"
      with k(3) True show "(e # es) ! j = None" by (cases j) simp_all
    qed
    with k have "Suc k < length (e # es) \<and> (e # es) ! Suc k = Some x
                 \<and> (\<forall>j<Suc k. (e # es) ! j = None)" by simp
    then show ?thesis by blast
  qed
qed

text \<open>
  For a positive batch size with \<open>len(items) + batchSize - 1\<close> within \<open>int\<close>, the
  function is the parallel run of the chunks' tasks followed by the scan for the first
  error.
\<close>

lemma BatchProcess_in_range:
  assumes ne: "items \<noteq> []" and b: "0 < batchSize"
    and r: "int (length items) + batchSize - 1 \<le> MaxInt"
  shows "BatchProcess items batchSize maxGoroutines processBatch sched =
           (case RunTasksConcurrently maxGoroutines
                   (map (batch_task processBatch) (spec_chunks (nat batchSize) items)
                      :: (unit, 'e, 'p) task_call list) sched of
              Inl cr \<Rightarrow> Some (Inl cr)
            | Inr Blocked \<Rightarrow> Some (Inr Blocked)
            | Inr (Returned rs) \<Rightarrow> Some (Inr (Returned (first_error rs))))"
proof -
  let ?num = "int (length items) + batchSize - 1"
  from ne have n: "0 < int (length items)" by simp
  from n b have npos: "0 < ?num" by linarith
  then have lo: "- (2 ^ 63) \<le> ?num" by simp
  from r have hi: "?num < 2 ^ 63" by (simp add: MaxInt_def)
  have "wrap64 (wrap64 (int (length items) + batchSize) - 1) = wrap64 ?num"
    using wrap64_add_left [of "int (length items) + batchSize" "- 1"] by simp
  also have "\<dots> = ?num"
    using wrap64_id [OF lo hi] .
  finally have num: "wrap64 (wrap64 (int (length items) + batchSize) - 1) = ?num" .
  have q: "quo ?num batchSize = ?num div batchSize"
    using npos b by (simp only: quo_def sgn_pos abs_of_pos mult_1)
  have q0: "0 \<le> ?num div batchSize"
    using npos b pos_imp_zdiv_nonneg_iff [of batchSize ?num] by linarith
  have "?num div batchSize \<le> ?num div 1"
    using npos b by (intro zdiv_mono2) linarith+
  then have "?num div batchSize \<le> ?num" by simp
  with hi q0 have "wrap64 (?num div batchSize) = ?num div batchSize"
    by (intro wrap64_id) simp_all
  with q0 q num
  have cnt: "\<not> wrap64 (quo (wrap64 (wrap64 (int (length items) + batchSize) - 1)) batchSize) < 0"
    by simp
  from split_batches_in_range [OF b r, of 0 "[]"]
  have sp: "split_batches items batchSize 0 [] = Some (Inr (spec_chunks (nat batchSize) items))"
    by simp
  from b cnt sp show ?thesis
    by (simp add: BatchProcess_def Let_def)
qed

lemma BatchProcess_returns_first_error:
  assumes ne: "items \<noteq> []" and b: "0 < batchSize"
    and r: "int (length items) + batchSize - 1 \<le> MaxInt"
  shows "(0 < maxGoroutines \<longrightarrow>
            (\<exists>sched e. BatchProcess items batchSize maxGoroutines processBatch sched
                         = Some (Inr (Returned e))))
         \<and> (\<forall>sched e. BatchProcess items batchSize maxGoroutines processBatch sched
                         = Some (Inr (Returned e)) \<longrightarrow>
              e = spec_first_non_nil
                    (map (\<lambda>c. chunk_error (processBatch c)) (spec_chunks (nat batchSize) items)))"
proof (intro conjI impI allI)
  let ?chunks = "spec_chunks (nat batchSize) items"
  let ?tasks = "map (batch_task processBatch) ?chunks :: (unit, 'b, 'c) task_call list"
  let ?p = "\<lparr>MaxGoroutines = maxGoroutines, Timeout = 0\<rparr>"
  have rt: "RunTasksConcurrently maxGoroutines ?tasks sched = Run ?p ?tasks sched" for sched
    by (simp add: RunTasksConcurrently_def NewParallelizer_def)
  {
    assume "0 < maxGoroutines"
    then obtain sched rs where "RunWithContext ?p Background ?tasks sched = Inr (Returned rs)"
      using RunWithContext_can_return [of ?p Background ?tasks] by auto
    then have "Run ?p ?tasks sched = Inr (Returned rs)" by (simp add: Run_def)
    then have "BatchProcess items batchSize maxGoroutines processBatch sched
               = Some (Inr (Returned (first_error rs)))"
      by (simp add: BatchProcess_in_range [OF ne b r] rt)
    then show "\<exists>sched e. BatchProcess items batchSize maxGoroutines processBatch sched
                 = Some (Inr (Returned e))" by blast
  }
  fix sched e
  assume bp: "BatchProcess items batchSize maxGoroutines processBatch sched = Some (Inr (Returned e))"
  then have cs: "(case Run ?p ?tasks sched of
              Inl cr \<Rightarrow> Some (Inl cr)
            | Inr Blocked \<Rightarrow> Some (Inr Blocked)
            | Inr (Returned rs) \<Rightarrow> Some (Inr (Returned (first_error rs))))
          = Some (Inr (Returned e))"
    by (simp only: BatchProcess_in_range [OF ne b r] rt)
  have "\<exists>rs. Run ?p ?tasks sched = Inr (Returned rs) \<and> e = first_error rs"
  proof (cases "Run ?p ?tasks sched")
    case (Inl cr)
    with cs show ?thesis by simp
  next
    case (Inr c)
    with cs show ?thesis by (cases c) simp_all
  qed
  then obtain rs where run: "Run ?p ?tasks sched = Inr (Returned rs)" and e: "e = first_error rs"
    by blast
  have t0: "Timeout ?p \<le> 0" by simp
  have rs: "rs = map (\<lambda>k. result_of_task k (?tasks ! k)) [0..<length ?tasks]"
    using Run_no_deadline_results [OF t0 run] .
  have "map Error rs = map (\<lambda>c. chunk_error (processBatch c)) ?chunks"
  proof (rule nth_equalityI)
    show "length (map Error rs) = length (map (\<lambda>c. chunk_error (processBatch c)) ?chunks)"
      by (subst rs) simp
    fix k assume "k < length (map Error rs)"
    then have k: "k < length ?chunks" by (subst (asm) rs) simp
    then have "map Error rs ! k = Error (result_of_task k (?tasks ! k))"
      by (subst rs) simp
    with k show "map Error rs ! k = map (\<lambda>c. chunk_error (processBatch c)) ?chunks ! k"
      by (simp add: Error_batch_task)
  qed
  with e show "e = spec_first_non_nil (map (\<lambda>c. chunk_error (processBatch c)) ?chunks)"
    by (simp add: first_error_eq)
qed

text \<open>
  Claim C5 fails on the code at two items and batch size \<open>2^63 - 1\<close>: the sum
  \<open>len(items) + batchSize - 1\<close> wraps around to \<open>-2^63\<close>, the capacity computed for the
  slice of batches is \<open>-1\<close>, and \<open>make\<close> panics before any chunk is processed,
  whatever the chunk function and the schedule.
\<close>

theorem C5_BatchProcess_overflow_panics:
  "BatchProcess [x, y] 9223372036854775807 maxGoroutines processBatch sched
   = Some (Inl (RuntimeError MakesliceCapOutOfRange))"
  by (simp add: BatchProcess_def wrap64_def quo_def)

subsection \<open>ThreadPool: a task that panics in a worker\<close>

text \<open>
  Claim C3 fails on the code. A pool with one worker and a queue of one gets a task that
  returns an error and then a task that panics. The first leaves the worker at its
  \<open>select\<close>, ready for the second; the panic of the second is recovered nowhere and
  ends the process, with the task still counted as pending.
\<close>

theorem C3_worker_panic_crashes:
  "NewThreadPool 1 1 2 0 =
     Inr \<lparr>workers = 1, tasks_buf = [], tasks_cap = 1, tasks_closed = False,
          tasks_sendq = [], tasks_recvq = [], taskCount = 0, cancelled = False,
          stopped = False, mu = False, worker_pcs = [W_Select],
          submit_pcs = [S_Lock, S_Lock], stop_pcs = [], process_crashed = None\<rparr>
   \<and> pool_run [TaskReturns None (Some (TaskError e)), TaskPanics pv]
        \<lparr>workers = 1, tasks_buf = [], tasks_cap = 1, tasks_closed = False,
         tasks_sendq = [], tasks_recvq = [], taskCount = 0, cancelled = False,
         stopped = False, mu = False, worker_pcs = [W_Select],
         submit_pcs = [S_Lock, S_Lock], stop_pcs = [], process_crashed = None\<rparr>
        [SubmitStep 0 False, SubmitStep 0 False, SubmitStep 0 False,
         WorkerStep 0 False, WorkerStep 0 False]
      = \<lparr>workers = 1, tasks_buf = [], tasks_cap = 1, tasks_closed = False,
         tasks_sendq = [], tasks_recvq = [], taskCount = 0, cancelled = False,
         stopped = False, mu = False, worker_pcs = [W_Select],
         submit_pcs = [S_Returned None, S_Lock], stop_pcs = [], process_crashed = None\<rparr>
   \<and> pool_run [TaskReturns None (Some (TaskError e)), TaskPanics pv]
        \<lparr>workers = 1, tasks_buf = [], tasks_cap = 1, tasks_closed = False,
         tasks_sendq = [], tasks_recvq = [], taskCount = 0, cancelled = False,
         stopped = False, mu = False, worker_pcs = [W_Select],
         submit_pcs = [S_Returned None, S_Lock], stop_pcs = [], process_crashed = None\<rparr>
        [SubmitStep 1 False, SubmitStep 1 False, SubmitStep 1 False,
         WorkerStep 0 False, WorkerStep 0 False]
      = \<lparr>workers = 1, tasks_buf = [], tasks_cap = 1, tasks_closed = False,
         tasks_sendq = [], tasks_recvq = [], taskCount = 1, cancelled = False,
         stopped = False, mu = False, worker_pcs = [W_Run 1],
         submit_pcs = [S_Returned None, S_Returned None], stop_pcs = [],
         process_crashed = Some 1\<rparr>"
  by (simp add: NewThreadPool_def pool_run_def submit_step_def worker_step_def send_task_def
      recv_task_def send_ready_def recv_ready_def eval_nat_numeral)

subsection \<open>ThreadPool: Submit and Stop\<close>
































text \<open>
  A call of \<open>Submit\<close> that has passed the check of \<open>stopped\<close> but has not reached its
  \<open>select\<close> when \<open>Stop\<close> closes the channel is not covered by the claim: in its
  \<open>select\<close> both cases can proceed, and if the runtime picks the send, the call panics
  and its count stays.
\<close>

lemma Submit_racing_Stop_can_panic:
  "pool_run ([] :: (unit, unit, unit) Task list)
     \<lparr>workers = 0, tasks_buf = [], tasks_cap = 1, tasks_closed = False,
      tasks_sendq = [], tasks_recvq = [], taskCount = 0, cancelled = False,
      stopped = False, mu = False, worker_pcs = [],
      submit_pcs = [S_Lock], stop_pcs = [T_Lock], process_crashed = None\<rparr>
     [SubmitStep 0 False, SubmitStep 0 False, StopStep 0, StopStep 0, StopStep 0,
      SubmitStep 0 False]
   = \<lparr>workers = 0, tasks_buf = [], tasks_cap = 1, tasks_closed = True,
      tasks_sendq = [], tasks_recvq = [], taskCount = 1, cancelled = True,
      stopped = True, mu = True, worker_pcs = [],
      submit_pcs = [S_Panicked SendOnClosedChannel], stop_pcs = [T_Wait],
      process_crashed = None\<rparr>"
  by (simp add: pool_run_def submit_step_def stop_step_def send_ready_def send_task_def)

end
